theory Spec2Isabelle
  imports Main "HOL-Library.Product_Lexorder"
begin

section \<open>Logs and their ordering (base-plugins/src/utils/utils.ts)\<close>

text \<open>
  An \<open>ethers.providers.Log\<close>, with the fields the modelled code reads. The field
  \<open>transactionHash\<close> is optional here because \<open>fromDBEvent\<close> builds a log object
  without it (the TypeScript cast hides that).
\<close>

record Log =
  log_blockNumber :: int
  log_blockHash :: string
  log_transactionHash :: "string option"
  log_transactionIndex :: int
  log_address :: string
  log_logIndex :: int
  log_removed :: bool

text \<open>\<open>compareLog\<close>: the comparator used to sort logs by position.\<close>

definition compareLog :: "int \<times> int \<times> int \<Rightarrow> int \<times> int \<times> int \<Rightarrow> int" where
  "compareLog a b =
     (case a of (ab, at, al) \<Rightarrow> case b of (bb, bt, bl) \<Rightarrow>
        if ab - bb \<noteq> 0 then ab - bb
        else if at - bt \<noteq> 0 then at - bt
        else al - bl)"

text \<open>
  \<open>Array.prototype.sort\<close> with a comparator is a stable sort: an insertion sort that
  places an element before the first one it does not exceed.
\<close>

fun insert_by :: "('a \<Rightarrow> 'a \<Rightarrow> int) \<Rightarrow> 'a \<Rightarrow> 'a list \<Rightarrow> 'a list" where
  "insert_by cmp x [] = [x]"
| "insert_by cmp x (y # ys) =
     (if cmp x y \<le> 0 then x # y # ys else y # insert_by cmp x ys)"

definition sort_by :: "('a \<Rightarrow> 'a \<Rightarrow> int) \<Rightarrow> 'a list \<Rightarrow> 'a list" where
  "sort_by cmp xs = foldr (insert_by cmp) xs []"

section \<open>The ingestor (base-plugins/src/plugins/source.ts)\<close>

text \<open>
  \<open>MixedLog\<close>: a log, or the placeholder of a single-instrument re-fetch carrying the
  position of the \<open>NewInstrument\<close> log and the logs its promise resolves to.
\<close>

datatype MixedLog =
  PlainLog Log
| DeferredLog int string int int "Log list"

fun isLog :: "MixedLog \<Rightarrow> bool" where
  "isLog (PlainLog l) = True"
| "isLog (DeferredLog b h t i p) = False"

fun ml_blockNumber :: "MixedLog \<Rightarrow> int" where
  "ml_blockNumber (PlainLog l) = log_blockNumber l"
| "ml_blockNumber (DeferredLog b h t i p) = b"

fun ml_transactionHash :: "MixedLog \<Rightarrow> string option" where
  "ml_transactionHash (PlainLog l) = log_transactionHash l"
| "ml_transactionHash (DeferredLog b h t i p) = Some h"

fun ml_transactionIndex :: "MixedLog \<Rightarrow> int" where
  "ml_transactionIndex (PlainLog l) = log_transactionIndex l"
| "ml_transactionIndex (DeferredLog b h t i p) = t"

fun ml_logIndex :: "MixedLog \<Rightarrow> int" where
  "ml_logIndex (PlainLog l) = log_logIndex l"
| "ml_logIndex (DeferredLog b h t i p) = i"

definition ml_position :: "MixedLog \<Rightarrow> int \<times> int \<times> int" where
  "ml_position l = (ml_blockNumber l, ml_transactionIndex l, ml_logIndex l)"

definition compareMixedLog :: "MixedLog \<Rightarrow> MixedLog \<Rightarrow> int" where
  "compareMixedLog a b =
     (let res = compareLog (ml_position a) (ml_position b) in
      if isLog a then (if isLog b then res else (if res = 0 then 1 else res))
      else (if isLog b then (if res = 0 then - 1 else res) else res))"

datatype LogOrigin = FromFetch | FromSubscribe

text \<open>
  The part of the \<open>Source\<close> plugin's state that the confirmation stage touches. The
  channel \<open>logs\<close> is the list of batches pushed downstream, oldest first; \<open>newBlocks\<close>
  records the \<open>newBlock\<close> hooks emitted.
\<close>

record Source =
  confirmation :: int
  latestBlockNumber :: "int option"
  confirmingLogs :: "MixedLog list"
  logs :: "MixedLog list list"
  newBlocks :: "int list"

fun is_removed :: "MixedLog \<Rightarrow> bool" where
  "is_removed (PlainLog l) = log_removed l"
| "is_removed (DeferredLog b h t i p) = False"

definition same_log :: "MixedLog \<Rightarrow> MixedLog \<Rightarrow> bool" where
  "same_log x l \<longleftrightarrow>
     ml_blockNumber x = ml_blockNumber l \<and> ml_transactionHash x = ml_transactionHash l \<and>
     ml_transactionIndex x = ml_transactionIndex l \<and> ml_logIndex x = ml_logIndex l"

text \<open>\<open>findIndex\<close> followed by \<open>splice(index, 1)\<close>: drop the first matching element.\<close>

fun remove_first :: "('a \<Rightarrow> bool) \<Rightarrow> 'a list \<Rightarrow> 'a list" where
  "remove_first P [] = []"
| "remove_first P (x # xs) = (if P x then xs else x # remove_first P xs)"

fun addConfirmingLogs :: "LogOrigin \<Rightarrow> MixedLog list \<Rightarrow> Source \<Rightarrow> Source" where
  "addConfirmingLogs FromFetch ls s = s\<lparr>confirmingLogs := confirmingLogs s @ ls\<rparr>"
| "addConfirmingLogs FromSubscribe [] s = s"
| "addConfirmingLogs FromSubscribe (l # ls) s =
     addConfirmingLogs FromSubscribe ls
       (if is_removed l
        then s\<lparr>confirmingLogs := remove_first (\<lambda>x. same_log x l) (confirmingLogs s)\<rparr>
        else s\<lparr>confirmingLogs := confirmingLogs s @ [l]\<rparr>)"

definition addLogs :: "LogOrigin \<Rightarrow> MixedLog list \<Rightarrow> Source \<Rightarrow> Source" where
  "addLogs origin ls s =
     (case latestBlockNumber s of
        None \<Rightarrow> addConfirmingLogs origin ls s
      | Some latest \<Rightarrow>
          (let confirmingLogs' = filter (\<lambda>l. ml_blockNumber l > latest - confirmation s) ls;
               confirmedLogs = filter (\<lambda>l. \<not> ml_blockNumber l > latest - confirmation s) ls;
               s1 = (if confirmingLogs' \<noteq> [] then addConfirmingLogs origin confirmingLogs' s
                     else s)
           in if confirmedLogs \<noteq> [] then s1\<lparr>logs := logs s1 @ [confirmedLogs]\<rparr> else s1))"

text \<open>
  \<open>confirm\<close>. The loop of the source pushes every log onto \<open>confirmedLogs\<close> in both
  branches of its test; the local \<open>confirmingLogs\<close> stays empty and replaces the field.
  With \<open>latestBlockNumber\<close> undefined the bound is \<open>NaN\<close> and the test is false.
\<close>

fun confirm_loop ::
  "int option \<Rightarrow> MixedLog list \<Rightarrow> MixedLog list \<times> MixedLog list \<Rightarrow> MixedLog list \<times> MixedLog list"
where
  "confirm_loop bound [] acc = acc"
| "confirm_loop bound (l # ls) (confirming, confirmed) =
     confirm_loop bound ls
       (if (case bound of None \<Rightarrow> False | Some b \<Rightarrow> ml_blockNumber l > b)
        then (confirming, confirmed @ [l])
        else (confirming, confirmed @ [l]))"

definition confirm :: "Source \<Rightarrow> Source" where
  "confirm s =
     (if confirmingLogs s = [] then s
      else
        (case confirm_loop (map_option (\<lambda>latest. latest - confirmation s) (latestBlockNumber s))
                (sort_by compareMixedLog (confirmingLogs s)) ([], []) of
           (confirming, confirmed) \<Rightarrow>
             (let s1 = s\<lparr>confirmingLogs := confirming\<rparr>
              in if confirmed \<noteq> [] then s1\<lparr>logs := logs s1 @ [confirmed]\<rparr> else s1)))"

text \<open>
  One turn of \<open>processBlockNumbers\<close>: \<open>getBlock\<close> (an external call, \<open>None\<close> when it
  throws) gives the header, whose number becomes \<open>latestBlockNumber\<close>; then \<open>confirm\<close>
  runs and \<open>newBlock\<close> is emitted. A failure is caught and logged.
\<close>

definition processBlockNumber :: "(int \<Rightarrow> int option) \<Rightarrow> int \<Rightarrow> Source \<Rightarrow> Source" where
  "processBlockNumber getBlock blockNumber s =
     (case getBlock blockNumber of
        None \<Rightarrow> s
      | Some number \<Rightarrow>
          (let s1 = confirm (s\<lparr>latestBlockNumber := Some number\<rparr>)
           in s1\<lparr>newBlocks := newBlocks s1 @ [number]\<rparr>))"

definition mkLog :: "int \<Rightarrow> int \<Rightarrow> int \<Rightarrow> Log" where
  "mkLog b t i =
     \<lparr>log_blockNumber = b, log_blockHash = ''0xb'', log_transactionHash = Some ''0xt'',
      log_transactionIndex = t, log_address = ''0xa'', log_logIndex = i,
      log_removed = False\<rparr>"

definition source0 :: Source where
  "source0 = \<lparr>confirmation = 2, latestBlockNumber = Some 103, confirmingLogs = [],
              logs = [], newBlocks = []\<rparr>"

section \<open>Numbers as decimal strings\<close>

text \<open>
  A template literal prints an integer in decimal. Numbers are modelled as integers
  (below \<open>10^21\<close>, where JavaScript still prints all digits).
\<close>

definition digit_char :: "nat \<Rightarrow> char" where
  "digit_char d = ''0123456789'' ! d"

fun digits :: "nat \<Rightarrow> string" where
  "digits n = (if n < 10 then [digit_char n] else digits (n div 10) @ [digit_char (n mod 10)])"

declare digits.simps [simp del]

definition numToString :: "int \<Rightarrow> string" where
  "numToString i = (if i < 0 then CHR ''-'' # digits (nat (- i)) else digits (nat i))"

section \<open>The request handler: \<open>generateSnapshot\<close>\<close>

text \<open>A JSON value; \<open>params\<close> is \<open>None\<close> when the request has no such member.\<close>

datatype json =
  JNull
| JBool bool
| JNum int
| JStr string
| JArr "json list"
| JObj "(string \<times> json) list"

datatype jstype = TUndefined | TObject | TBoolean | TNumber | TString

fun typeof :: "json option \<Rightarrow> jstype" where
  "typeof None = TUndefined"
| "typeof (Some JNull) = TObject"
| "typeof (Some (JBool b)) = TBoolean"
| "typeof (Some (JNum n)) = TNumber"
| "typeof (Some (JStr s)) = TString"
| "typeof (Some (JArr xs)) = TObject"
| "typeof (Some (JObj kvs)) = TObject"

datatype error =
  JSONRPCError int string
| TypeError string
| Error string
| UniqueConstraintError string

text \<open>\<open>JSONRPCErrorCode\<close> and \<open>SnapshotErrorCode\<close>.\<close>

definition InvalidRequest :: int where "InvalidRequest = - 32600"
definition Internal :: int where "Internal = - 32603"
definition Generating :: int where "Generating = 102"

text \<open>The error code \<open>formatJSONRPCError\<close> puts into the response that \<open>handle\<close> sends.\<close>

fun formatJSONRPCError_code :: "error \<Rightarrow> int" where
  "formatJSONRPCError_code (JSONRPCError code msg) = code"
| "formatJSONRPCError_code e = Internal"

text \<open>
  Reading a property of a value whose \<open>typeof\<close> is \<open>object\<close>: \<open>null\<close> throws a
  \<open>TypeError\<close>; an array has none of the names read here.
\<close>

fun get_prop :: "json \<Rightarrow> string \<Rightarrow> error + json option" where
  "get_prop JNull k = Inl (TypeError ''Cannot read properties of null'')"
| "get_prop (JObj kvs) k = Inr (map_of kvs k)"
| "get_prop v k = Inr None"

record EventPosition =
  pos_blockNumber :: int
  pos_transactionIndex :: int
  pos_logIndex :: int

text \<open>The type \<open>number | EventPosition\<close> of a replay target.\<close>

datatype Target = ToBlock int | ToPos EventPosition

fun snapshotId :: "nat \<Rightarrow> Target \<Rightarrow> string" where
  "snapshotId chain (ToBlock position) = digits chain @ ''-'' @ numToString position"
| "snapshotId chain (ToPos position) =
     digits chain @ ''-'' @ numToString (pos_blockNumber position) @ ''-'' @
     numToString (pos_transactionIndex position) @ ''-'' @ numToString (pos_logIndex position)"

record 'snap Handler =
  generating :: "string list"
  generated :: "string \<rightharpoonup> 'snap"

text \<open>
  The part of \<open>handleGenerateSnapshot\<close> after the validation of \<open>params\<close>, from
  \<open>const snapId = snapshotId(...)\<close> on.
\<close>

definition generate ::
  "nat \<Rightarrow> (Target \<Rightarrow> error + 'snap \<times> EventPosition) \<Rightarrow> Target \<Rightarrow> 'snap Handler
   \<Rightarrow> (error + string) \<times> 'snap Handler"
where
  "generate chain gs to h =
     (let snapId = snapshotId chain to in
      if snapId \<in> set (generating h)
      then (Inl (JSONRPCError Generating ''still generating''), h)
      else if generated h snapId \<noteq> None then (Inr snapId, h)
      else
        (let h1 = h\<lparr>generating := generating h @ [snapId]\<rparr> in
         case gs to of
           Inl err \<Rightarrow> (Inl err, h1\<lparr>generating := removeAll snapId (generating h1)\<rparr>)
         | Inr (snapshot, position) \<Rightarrow>
             (let h2 = h1\<lparr>generated := (generated h1)(snapId \<mapsto> snapshot)\<rparr>;
                  underlyingSnapId = snapshotId chain (ToPos position);
                  h3 = (if underlyingSnapId \<noteq> snapId
                        then h2\<lparr>generated := (generated h2)(underlyingSnapId \<mapsto> snapshot)\<rparr>
                        else h2)
              in (Inr snapId, h3\<lparr>generating := removeAll snapId (generating h3)\<rparr>))))"

text \<open>
  \<open>handleGenerateSnapshot\<close>. The replay \<open>getSnapshot(sdk, events, to, ...)\<close> is the
  parameter \<open>gs\<close>; the \<open>finally\<close> block removes the id from \<open>generating\<close> again.
\<close>

definition handleGenerateSnapshot ::
  "nat \<Rightarrow> (Target \<Rightarrow> error + 'snap \<times> EventPosition) \<Rightarrow> json option \<Rightarrow> 'snap Handler
   \<Rightarrow> (error + string) \<times> 'snap Handler"
where
  "handleGenerateSnapshot chain gs params h =
     (if typeof params \<noteq> TObject
      then (Inl (JSONRPCError InvalidRequest ''invalid params''), h)
      else
        (case get_prop (the params) ''blockNumber'' of
           Inl err \<Rightarrow> (Inl err, h)
         | Inr blockNumber \<Rightarrow>
        (case get_prop (the params) ''transactionIndex'' of
           Inl err \<Rightarrow> (Inl err, h)
         | Inr transactionIndex \<Rightarrow>
        (case get_prop (the params) ''logIndex'' of
           Inl err \<Rightarrow> (Inl err, h)
         | Inr logIndex \<Rightarrow>
        (if typeof blockNumber \<noteq> TNumber
            \<or> (transactionIndex \<noteq> None \<and> typeof transactionIndex \<noteq> TNumber)
            \<or> (logIndex \<noteq> None \<and> typeof logIndex \<noteq> TNumber)
         then (Inl (JSONRPCError InvalidRequest ''invalid params''), h)
         else
           (case (blockNumber, transactionIndex, logIndex) of
              (Some (JNum b), Some (JNum t), Some (JNum l)) \<Rightarrow>
                generate chain gs
                  (ToPos \<lparr>pos_blockNumber = b, pos_transactionIndex = t, pos_logIndex = l\<rparr>) h
            | (Some (JNum b), None, None) \<Rightarrow> generate chain gs (ToBlock b) h
            | _ \<Rightarrow> (Inl (JSONRPCError InvalidRequest ''invalid params''), h)))))))"

section \<open>The event store (db/src: the \<open>Events\<close> class and its models)\<close>

text \<open>
  A row of a sub-table \<open>events_{chainId}_{k}\<close> (\<open>EventStructure\<close>; the serialized
  arguments \<open>data\<close> are kept as an opaque string) and a row of the \<open>EventIndex\<close>
  table.
\<close>

record EventStructure =
  ev_id :: string
  ev_chainId :: nat
  ev_name :: string
  ev_blockNumber :: int
  ev_timestamp :: "int option"
  ev_blockHash :: string
  ev_txHash :: string
  ev_transactionIndex :: int
  ev_logIndex :: int
  ev_address :: string
  ev_data :: string

record EventIndex =
  ix_id :: nat
  ix_chainId :: nat
  ix_blockNumber :: int
  ix_index :: nat
  ix_size :: int

text \<open>
  The \<open>Events\<close> object together with the database it talks to: the constructor's
  arguments, the fields \<open>initializing\<close>, \<open>models\<close> (the keys of the map, in insertion
  order) and \<open>indexes\<close>, and of the database the \<open>EventIndex\<close> table with its
  auto-increment counter and the sub-tables by name (\<open>None\<close>: no such table).
\<close>

record Events =
  chainId :: nat
  maxSizeForSingleTable :: int
  initializing :: bool
  models :: "string list"
  indexes :: "EventIndex list"
  db_EventIndex :: "EventIndex list"
  db_nextId :: nat
  db_tables :: "string \<rightharpoonup> EventStructure list"

definition concatModelName :: "nat \<Rightarrow> nat \<Rightarrow> string" where
  "concatModelName chain index = ''events_'' @ digits chain @ ''_'' @ digits index"

text \<open>\<open>syncModel\<close>; \<open>model.sync()\<close> creates the table if it does not exist.\<close>

definition syncModel :: "nat \<Rightarrow> Events \<Rightarrow> Events" where
  "syncModel indexOfEventIndex s =
     (let name = concatModelName (chainId s) indexOfEventIndex in
      if name \<in> set (models s) then s
      else s\<lparr>db_tables := (case db_tables s name of
                               None \<Rightarrow> (db_tables s)(name \<mapsto> [])
                             | Some rows \<Rightarrow> db_tables s),
              models := models s @ [name]\<rparr>)"

definition getModel :: "EventIndex \<Rightarrow> Events \<Rightarrow> error + string" where
  "getModel index s =
     (let name = concatModelName (chainId s) (ix_index index) in
      if name \<in> set (models s) then Inr name else Inl (Error ''unknown model''))"

text \<open>
  \<open>init\<close>: load the chain's index rows ordered by \<open>id\<close>, sync the table of each, then
  sync the tables from the last loaded index (or 0) up to 29.
\<close>

definition init :: "Events \<Rightarrow> Events" where
  "init s =
     (if initializing s then s
      else
        (let s1 = s\<lparr>initializing := True,
                     indexes := sort_key ix_id
                                  (filter (\<lambda>r. ix_chainId r = chainId s) (db_EventIndex s))\<rparr>;
             s2 = fold syncModel (map ix_index (indexes s1)) s1
         in fold syncModel
              [(if indexes s2 \<noteq> [] then ix_index (last (indexes s2)) else 0) ..< 30] s2))"

text \<open>
  The range test shared by the loops of \<open>create\<close>, \<open>findOne\<close> and \<open>destroyOne\<close>:
  the position of the first index with \<open>previous < blockNumber \<le> index.blockNumber\<close>,
  where \<open>previous\<close> starts at \<open>-1\<close>.
\<close>

fun find_range :: "int \<Rightarrow> int \<Rightarrow> EventIndex list \<Rightarrow> nat \<Rightarrow> nat option" where
  "find_range b previous [] k = None"
| "find_range b previous (index # rest) k =
     (if previous < b \<and> b \<le> ix_blockNumber index then Some k
      else find_range b (ix_blockNumber index) rest (Suc k))"

text \<open>\<open>index.save()\<close>: write the instance over the row with its primary key.\<close>

definition save_index :: "EventIndex \<Rightarrow> EventIndex list \<Rightarrow> EventIndex list" where
  "save_index index rows = map (\<lambda>r. if ix_id r = ix_id index then index else r) rows"

text \<open>
  \<open>model.create(event)\<close> on a sub-table: the primary key \<open>id\<close> and the unique index
  on \<open>(chainId, blockNumber, transactionIndex, logIndex)\<close> reject a duplicate.
\<close>

definition violates_unique :: "EventStructure \<Rightarrow> EventStructure list \<Rightarrow> bool" where
  "violates_unique e rows \<longleftrightarrow>
     (\<exists>r \<in> set rows. ev_id r = ev_id e \<or>
        (ev_chainId r = ev_chainId e \<and> ev_blockNumber r = ev_blockNumber e \<and>
         ev_transactionIndex r = ev_transactionIndex e \<and> ev_logIndex r = ev_logIndex e))"

definition model_create ::
  "string \<Rightarrow> EventStructure \<Rightarrow> Events \<Rightarrow> (error + EventStructure) \<times> Events"
where
  "model_create name e s =
     (case db_tables s name of
        None \<Rightarrow> (Inl (Error ''relation does not exist''), s)
      | Some rows \<Rightarrow>
          if violates_unique e rows then (Inl (UniqueConstraintError name), s)
          else (Inr e, s\<lparr>db_tables := (db_tables s)(name \<mapsto> rows @ [e])\<rparr>))"

text \<open>\<open>insert\<close>; the index object is named by its position \<open>k\<close> in \<open>indexes\<close>.\<close>

definition insert_event ::
  "EventStructure \<Rightarrow> nat \<Rightarrow> Events \<Rightarrow> (error + EventStructure) \<times> Events"
where
  "insert_event e k s =
     (case getModel (indexes s ! k) s of
        Inl err \<Rightarrow> (Inl err, s)
      | Inr name \<Rightarrow>
          (let index = indexes s ! k;
               index' = index\<lparr>ix_blockNumber := max (ix_blockNumber index) (ev_blockNumber e),
                               ix_size := ix_size index + 1\<rparr>;
               s1 = s\<lparr>indexes := (indexes s)[k := index'],
                       db_EventIndex := save_index index' (db_EventIndex s)\<rparr>
           in model_create name e s1))"

text \<open>
  \<open>create\<close>. An error leaves behind what was written before it was thrown (the index
  row and the in-memory list); rolling a transaction back is the caller's business.
\<close>

definition create :: "EventStructure \<Rightarrow> Events \<Rightarrow> (error + EventStructure) \<times> Events" where
  "create e s =
     (case (if indexes s \<noteq> []
            then (case find_range (ev_blockNumber e) (- 1) (indexes s) 0 of
                    Some k \<Rightarrow> Some k
                  | None \<Rightarrow> if ix_size (last (indexes s)) < maxSizeForSingleTable s
                            then Some (length (indexes s) - 1) else None)
            else None) of
        Some k \<Rightarrow> insert_event e k s
      | None \<Rightarrow>
          (let newIndex = \<lparr>ix_id = db_nextId s, ix_chainId = ev_chainId e,
                            ix_blockNumber = ev_blockNumber e, ix_index = length (indexes s),
                            ix_size = 1\<rparr>;
               s1 = s\<lparr>db_EventIndex := db_EventIndex s @ [newIndex],
                       db_nextId := Suc (db_nextId s),
                       indexes := indexes s @ [newIndex]\<rparr>
           in case getModel newIndex s1 of
                Inl err \<Rightarrow> (Inl err, s1)
              | Inr name \<Rightarrow> model_create name e s1))"

text \<open>
  A \<open>where\<close> clause: what it says about \<open>blockNumber\<close> (a plain number, or an object
  of range operators), and the rest of it as a predicate on rows.
\<close>

datatype BlockCond = BnEq int | BnRange "int option" "int option" "int option" "int option"

record Condition =
  where_blockNumber :: "BlockCond option"
  where_rest :: "EventStructure \<Rightarrow> bool"

fun blockCond_holds :: "BlockCond \<Rightarrow> int \<Rightarrow> bool" where
  "blockCond_holds (BnEq n) b \<longleftrightarrow> b = n"
| "blockCond_holds (BnRange gt gte lt lte) b \<longleftrightarrow>
     (case gt of None \<Rightarrow> True | Some n \<Rightarrow> b > n) \<and>
     (case gte of None \<Rightarrow> True | Some n \<Rightarrow> b \<ge> n) \<and>
     (case lt of None \<Rightarrow> True | Some n \<Rightarrow> b < n) \<and>
     (case lte of None \<Rightarrow> True | Some n \<Rightarrow> b \<le> n)"

definition matches :: "'a Condition_scheme \<Rightarrow> EventStructure \<Rightarrow> bool" where
  "matches c e \<longleftrightarrow>
     (case where_blockNumber c of None \<Rightarrow> True | Some bc \<Rightarrow> blockCond_holds bc (ev_blockNumber e))
     \<and> where_rest c e"

text \<open>
  \<open>destroyOne\<close>: the block number is \<open>where.blockNumber ?? explicitBlockNumber\<close> and
  must be a number; the matching rows of the first sub-table in range are deleted and
  its \<open>size\<close> is decreased by their count.
\<close>

definition destroyOne :: "Condition \<Rightarrow> int option \<Rightarrow> Events \<Rightarrow> (error + nat) \<times> Events" where
  "destroyOne condition explicitBlockNumber s =
     (case (case where_blockNumber condition of
              Some (BnEq n) \<Rightarrow> Some n
            | Some (BnRange gt gte lt lte) \<Rightarrow> None
            | None \<Rightarrow> explicitBlockNumber) of
        None \<Rightarrow> (Inl (Error ''missing block number''), s)
      | Some blockNumber \<Rightarrow>
          (case find_range blockNumber (- 1) (indexes s) 0 of
             None \<Rightarrow> (Inr 0, s)
           | Some k \<Rightarrow>
               (case getModel (indexes s ! k) s of
                  Inl err \<Rightarrow> (Inl err, s)
                | Inr name \<Rightarrow>
                    (case db_tables s name of
                       None \<Rightarrow> (Inl (Error ''relation does not exist''), s)
                     | Some rows \<Rightarrow>
                         (let destroyed = length (filter (matches condition) rows);
                              s1 = s\<lparr>db_tables := (db_tables s)
                                        (name \<mapsto> filter (\<lambda>r. \<not> matches condition r) rows)\<rparr>
                          in if destroyed > 0
                             then (let index = indexes s1 ! k;
                                       index' = index\<lparr>ix_size := ix_size index - int destroyed\<rparr>
                                   in (Inr destroyed,
                                       s1\<lparr>indexes := (indexes s1)[k := index'],
                                           db_EventIndex := save_index index' (db_EventIndex s1)\<rparr>))
                             else (Inr destroyed, s1))))))"

text \<open>A new \<open>Events\<close> object on a database.\<close>

definition newEvents ::
  "nat \<Rightarrow> int \<Rightarrow> EventIndex list \<Rightarrow> nat \<Rightarrow> (string \<rightharpoonup> EventStructure list) \<Rightarrow> Events"
where
  "newEvents chain maxSize rows nextId tables =
     \<lparr>chainId = chain, maxSizeForSingleTable = maxSize, initializing = False, models = [],
      indexes = [], db_EventIndex = rows, db_nextId = nextId, db_tables = tables\<rparr>"

subsection \<open>Sequences of writes and the consistency of a store\<close>

text \<open>The rows of the sub-table with index \<open>k\<close> (none when the table is missing).\<close>

definition table_rows :: "Events \<Rightarrow> nat \<Rightarrow> EventStructure list" where
  "table_rows s k =
     (case db_tables s (concatModelName (chainId s) k) of None \<Rightarrow> [] | Some rows \<Rightarrow> rows)"



definition previous_max :: "Events \<Rightarrow> nat \<Rightarrow> int" where
  "previous_max s k = (if k = 0 then - 1 else ix_blockNumber (indexes s ! (k - 1)))"

definition ev_position :: "EventStructure \<Rightarrow> int \<times> int \<times> int" where
  "ev_position e = (ev_blockNumber e, ev_transactionIndex e, ev_logIndex e)"

text \<open>
  A consistent store, in five parts. Structure: the index at position \<open>k\<close> is that of
  sub-table \<open>k\<close>, whose model is synced and whose table exists.
\<close>

definition indexed_ok :: "Events \<Rightarrow> bool" where
  "indexed_ok s \<longleftrightarrow>
     (\<forall>k < length (indexes s).
        ix_index (indexes s ! k) = k \<and>
        concatModelName (chainId s) k \<in> set (models s) \<and>
        db_tables s (concatModelName (chainId s) k) \<noteq> None)"

text \<open>Occupancy: \<open>size\<close> counts the rows of the sub-table.\<close>

definition sizes_ok :: "Events \<Rightarrow> bool" where
  "sizes_ok s \<longleftrightarrow>
     (\<forall>k < length (indexes s). ix_size (indexes s ! k) = int (length (table_rows s k)))"

text \<open>
  Ranges: every row lies in the block range \<open>(previous max, max]\<close> of its sub-table, and
  the maxima do not decrease.
\<close>

definition ranges_ok :: "Events \<Rightarrow> bool" where
  "ranges_ok s \<longleftrightarrow>
     (\<forall>k < length (indexes s). \<forall>e \<in> set (table_rows s k).
        previous_max s k < ev_blockNumber e \<and>
        ev_blockNumber e \<le> ix_blockNumber (indexes s ! k))
     \<and> sorted (map ix_blockNumber (indexes s))"

text \<open>Keys: ids and positions are unique within a sub-table, as its constraints demand.\<close>

definition unique_ok :: "Events \<Rightarrow> bool" where
  "unique_ok s \<longleftrightarrow>
     (\<forall>k < length (indexes s).
        distinct (map ev_id (table_rows s k)) \<and>
        distinct (map (\<lambda>e. (ev_chainId e, ev_position e)) (table_rows s k)))"

text \<open>Spare tables: a synced table that no index names yet is empty.\<close>

definition spare_ok :: "Events \<Rightarrow> bool" where
  "spare_ok s \<longleftrightarrow>
     (\<forall>name \<in> set (models s).
        name \<notin> concatModelName (chainId s) ` {0 ..< length (indexes s)}
        \<longrightarrow> db_tables s name = Some [])"

definition consistent :: "Events \<Rightarrow> bool" where
  "consistent s \<longleftrightarrow> indexed_ok s \<and> sizes_ok s \<and> ranges_ok s \<and> unique_ok s \<and> spare_ok s"

datatype Op = Create EventStructure | DestroyOne Condition "int option"

text \<open>A sequence of writes, called serially; \<open>None\<close> as soon as one of them throws.\<close>

fun exec :: "Op list \<Rightarrow> Events \<Rightarrow> Events option" where
  "exec [] s = Some s"
| "exec (Create e # ops) s =
     (case create e s of (Inl err, s') \<Rightarrow> None | (Inr r, s') \<Rightarrow> exec ops s')"
| "exec (DestroyOne c b # ops) s =
     (case destroyOne c b s of (Inl err, s') \<Rightarrow> None | (Inr n, s') \<Rightarrow> exec ops s')"

fun op_blockNumber_ok :: "Op \<Rightarrow> bool" where
  "op_blockNumber_ok (Create e) \<longleftrightarrow> 0 \<le> ev_blockNumber e"
| "op_blockNumber_ok (DestroyOne c b) \<longleftrightarrow> True"

definition mkEvent :: "string \<Rightarrow> int \<Rightarrow> int \<Rightarrow> int \<Rightarrow> EventStructure" where
  "mkEvent i b t l =
     \<lparr>ev_id = i, ev_chainId = 1, ev_name = ''name'', ev_blockNumber = b, ev_timestamp = None,
      ev_blockHash = ''blockHash'', ev_txHash = ''txHash'', ev_transactionIndex = t,
      ev_logIndex = l, ev_address = ''address'', ev_data = ''{}''\<rparr>"

definition byId :: "string \<Rightarrow> Condition" where
  "byId i = \<lparr>where_blockNumber = None, where_rest = (\<lambda>e. ev_id e = i)\<rparr>"

text \<open>The index rows that \<open>init\<close> loads.\<close>

definition loaded_indexes :: "Events \<Rightarrow> EventIndex list" where
  "loaded_indexes s = sort_key ix_id (filter (\<lambda>r. ix_chainId r = chainId s) (db_EventIndex s))"


text \<open>A database holding one event in sub-table 0, and a new \<open>Events\<close> object on it.\<close>

definition store_one :: Events where
  "store_one = newEvents 1 1000000
      [\<lparr>ix_id = 1, ix_chainId = 1, ix_blockNumber = 10, ix_index = 0, ix_size = 1\<rparr>] 2
      [concatModelName 1 0 \<mapsto> [mkEvent ''a'' 10 0 0]]"

text \<open>
  A store of 30 full sub-tables (with \<open>maxSizeForSingleTable = 1\<close>) held by an object
  that was initialised on an empty database.
\<close>

definition store_full :: Events where
  "store_full =
     (init (newEvents 1 1 [] 1 Map.empty))
       \<lparr>indexes := map (\<lambda>k. \<lparr>ix_id = Suc k, ix_chainId = 1, ix_blockNumber = int k,
                                 ix_index = k, ix_size = 1\<rparr>) [0..<30],
        db_nextId := 31\<rparr>"

text \<open>
  An example run on a new store whose sub-tables hold at most two events: three creates
  (the third opens sub-table 1) and the removal of the event at block 9.
\<close>

definition store_new :: Events where
  "store_new = init (newEvents 1 2 [] 1 Map.empty)"

definition example_ops :: "Op list" where
  "example_ops = [Create (mkEvent ''a'' 5 0 0), Create (mkEvent ''b'' 9 0 0),
                  Create (mkEvent ''c'' 12 0 0), DestroyOne (byId ''b'') (Some 9)]"

text \<open>Every indexed sub-table holds an event at its recorded maximum.\<close>

definition max_attained :: "Events \<Rightarrow> bool" where
  "max_attained s \<longleftrightarrow>
     (\<forall>k < length (indexes s). \<exists>e \<in> set (table_rows s k).
        ev_blockNumber e = ix_blockNumber (indexes s ! k))"

fun is_Create :: "Op \<Rightarrow> bool" where
  "is_Create (Create e) = True"
| "is_Create (DestroyOne c b) = False"


section \<open>Reading the event store: \<open>findAll\<close> and \<open>findAllOrderByBTLASC\<close>\<close>

text \<open>
  The options of a query: the \<open>where\<close> clause, the order (none, or by block number,
  transaction index and log index ascending), \<open>limit\<close> and \<open>offset\<close>.
\<close>

datatype Order = Unordered | ByPosition

record FindOptions = Condition +
  fo_order :: Order
  fo_limit :: "nat option"
  fo_offset :: "nat option"

text \<open>\<open>model.findAll(options)\<close> on the rows of one sub-table.\<close>

definition model_findAll :: "EventStructure list \<Rightarrow> FindOptions \<Rightarrow> EventStructure list" where
  "model_findAll rows options =
     (let matching = filter (matches options) rows;
          ordered = (case fo_order options of
                       Unordered \<Rightarrow> matching
                     | ByPosition \<Rightarrow> sort_key ev_position matching);
          skipped = (case fo_offset options of None \<Rightarrow> ordered | Some n \<Rightarrow> drop n ordered)
      in case fo_limit options of None \<Rightarrow> skipped | Some n \<Rightarrow> take n skipped)"

text \<open>
  The paging loop of the generator \<open>findAll\<close> inside one sub-table. Each full page is
  yielded; what the consumer sends back (\<open>respond\<close>, \<open>None\<close> for \<open>undefined\<close>) replaces
  the condition of the next query, which keeps the limit and takes the advanced offset
  unless the reply carries an offset of its own. The loop need not end for every
  consumer, so the result is an option.
\<close>

partial_function (option) page_loop ::
  "EventStructure list \<Rightarrow> FindOptions \<Rightarrow> nat \<Rightarrow> (EventStructure list \<Rightarrow> FindOptions option)
   \<Rightarrow> nat \<Rightarrow> EventStructure list \<Rightarrow> EventStructure list list option"
where
  "page_loop rows condition limit respond offset events =
     (if 0 < limit \<and> length events = limit
      then
        (let offset' = offset + limit;
             options = (case respond events of
                          None \<Rightarrow> condition\<lparr>fo_limit := Some limit, fo_offset := Some offset'\<rparr>
                        | Some c \<Rightarrow> c\<lparr>fo_limit := Some limit,
                                      fo_offset := (case fo_offset c of None \<Rightarrow> Some offset'
                                                    | Some n \<Rightarrow> Some n)\<rparr>)
         in Option.bind (page_loop rows condition limit respond offset' (model_findAll rows options))
              (\<lambda>rest. Some (events # rest)))
      else Some (if events \<noteq> [] then [events] else []))"

text \<open>
  The bounds \<open>from\<close> and \<open>to\<close> of \<open>findAll\<close>: taken from the range operators of
  \<open>where.blockNumber\<close>, else from the explicit arguments, else 0 and infinity (\<open>None\<close>).
\<close>

definition findAll_from :: "BlockCond option \<Rightarrow> int option \<Rightarrow> int" where
  "findAll_from blockNumber explicitFrom =
     (case (case blockNumber of
              Some (BnRange (Some n) gte lt lte) \<Rightarrow> Some n
            | Some (BnRange None (Some n) lt lte) \<Rightarrow> Some n
            | _ \<Rightarrow> explicitFrom) of
        Some n \<Rightarrow> n | None \<Rightarrow> 0)"

definition findAll_to :: "BlockCond option \<Rightarrow> int option \<Rightarrow> int option" where
  "findAll_to blockNumber explicitTo =
     (case blockNumber of
        Some (BnRange gt gte (Some n) lte) \<Rightarrow> Some n
      | Some (BnRange gt gte None (Some n)) \<Rightarrow> Some n
      | _ \<Rightarrow> explicitTo)"

text \<open>
  The test that selects a sub-table:
  \<open>(from <= index.blockNumber && index.blockNumber <= to) ||
    (previous < to && to <= index.blockNumber)\<close>.
\<close>

definition selected :: "int \<Rightarrow> int option \<Rightarrow> int \<Rightarrow> int \<Rightarrow> bool" where
  "selected from to previous blockNumber \<longleftrightarrow>
     (case to of
        None \<Rightarrow> from \<le> blockNumber
      | Some t \<Rightarrow> (from \<le> blockNumber \<and> blockNumber \<le> t) \<or> (previous < t \<and> t \<le> blockNumber))"

text \<open>
  The loop of \<open>findAll\<close> over the indexes. The result is the list of batches yielded,
  with the error if the generator threw after them; \<open>None\<close> if a paging loop does not
  end.
\<close>

fun findAll_loop ::
  "Events \<Rightarrow> FindOptions \<Rightarrow> int \<Rightarrow> int option \<Rightarrow> (EventStructure list \<Rightarrow> FindOptions option)
   \<Rightarrow> int \<Rightarrow> EventIndex list \<Rightarrow> (EventStructure list list \<times> error option) option"
where
  "findAll_loop s condition from to respond previous [] = Some ([], None)"
| "findAll_loop s condition from to respond previous (index # rest) =
     (if selected from to previous (ix_blockNumber index)
      then
        (case getModel index s of
           Inl err \<Rightarrow> Some ([], Some err)
         | Inr name \<Rightarrow>
             (case db_tables s name of
                None \<Rightarrow> Some ([], Some (Error ''relation does not exist''))
              | Some rows \<Rightarrow>
                  (case (case fo_limit condition of
                           None \<Rightarrow> page_loop rows condition 0 respond 0
                                     (model_findAll rows (condition\<lparr>fo_offset := None\<rparr>))
                         | Some limit \<Rightarrow>
                             page_loop rows condition limit respond 0
                               (model_findAll rows
                                  (condition\<lparr>fo_offset := (if 0 < limit then Some 0 else None)\<rparr>))) of
                     None \<Rightarrow> None
                   | Some batches \<Rightarrow>
                       (case findAll_loop s condition from to respond (ix_blockNumber index) rest of
                          None \<Rightarrow> None
                        | Some (batches', err) \<Rightarrow> Some (batches @ batches', err)))))
      else findAll_loop s condition from to respond (ix_blockNumber index) rest)"

definition findAll ::
  "Events \<Rightarrow> FindOptions \<Rightarrow> int option \<Rightarrow> int option
   \<Rightarrow> (EventStructure list \<Rightarrow> FindOptions option)
   \<Rightarrow> (EventStructure list list \<times> error option) option"
where
  "findAll s condition explicitFrom explicitTo respond =
     findAll_loop s condition
       (findAll_from (where_blockNumber condition) explicitFrom)
       (findAll_to (where_blockNumber condition) explicitTo)
       respond (- 1) (indexes s)"

section \<open>Event ids (base-plugins/src/utils/utils.ts)\<close>

text \<open>\<open>toLowerCase\<close> on the ASCII letters, which is all a hex string can hold.\<close>

definition lower_char :: "char \<Rightarrow> char" where
  "lower_char c =
     (case map_of (zip ''ABCDEFGHIJKLMNOPQRSTUVWXYZ'' ''abcdefghijklmnopqrstuvwxyz'') c of
        None \<Rightarrow> c
      | Some l \<Rightarrow> l)"

definition toLowerCase :: "string \<Rightarrow> string" where
  "toLowerCase str = map lower_char str"

definition formatHexString :: "string \<Rightarrow> string" where
  "formatHexString str =
     (if take 2 str = ''0x'' then toLowerCase (drop 2 str) else toLowerCase str)"

text \<open>
  An argument of \<open>calcId\<close>: a number, or a string that may be \<open>undefined\<close> at run time
  (on which \<open>formatHexString\<close> throws a \<open>TypeError\<close>).
\<close>

datatype IdArg = NumArg int | StrArg "string option"

fun format_arg :: "IdArg \<Rightarrow> error + string" where
  "format_arg (NumArg n) = Inr (numToString n)"
| "format_arg (StrArg None) = Inl (TypeError ''Cannot read properties of undefined'')"
| "format_arg (StrArg (Some str)) = Inr (formatHexString str)"

fun format_args :: "IdArg list \<Rightarrow> error + string list" where
  "format_args [] = Inr []"
| "format_args (a # as) =
     (case format_arg a of
        Inl err \<Rightarrow> Inl err
      | Inr str \<Rightarrow> (case format_args as of Inl err \<Rightarrow> Inl err | Inr strs \<Rightarrow> Inr (str # strs)))"

fun join_comma :: "string list \<Rightarrow> string" where
  "join_comma [] = []"
| "join_comma [x] = x"
| "join_comma (x # y # ys) = x @ '','' @ join_comma (y # ys)"

text \<open>\<open>calcId\<close>; the SHA-256 digest in hex is the parameter \<open>sha256\<close>.\<close>

definition calcId :: "(string \<Rightarrow> string) \<Rightarrow> IdArg list \<Rightarrow> error + string" where
  "calcId sha256 args =
     (case format_args args of Inl err \<Rightarrow> Inl err | Inr strs \<Rightarrow> Inr (sha256 (join_comma strs)))"

definition calcEventId ::
  "(string \<Rightarrow> string) \<Rightarrow> nat \<Rightarrow> string \<Rightarrow> string \<Rightarrow> string option \<Rightarrow> int \<Rightarrow> error + string"
where
  "calcEventId sha256 chain address blockHash txHash logIndex =
     calcId sha256 [NumArg (int chain), StrArg (Some address), StrArg (Some blockHash),
                    StrArg txHash, NumArg logIndex]"

section \<open>The reorg detector: \<open>checkEvents\<close> and \<open>commit\<close>\<close>

text \<open>
  What the detector reaches outside the repository: the hash function, the log fetcher's
  \<open>fetch(from, to)\<close>, the ABI parser chosen by address (\<open>None\<close> when it throws; else
  the event name and the serialized arguments) and the timestamp of a block from the
  block cache (\<open>None\<close> when \<open>getBlock\<close> throws).
\<close>

record World =
  sha256 :: "string \<Rightarrow> string"
  fetchLogs :: "int \<Rightarrow> int \<Rightarrow> Log list"
  parseLog :: "Log \<Rightarrow> (string \<times> string) option"
  getBlockTimestamp :: "int \<Rightarrow> int option"

definition log_position :: "Log \<Rightarrow> int \<times> int \<times> int" where
  "log_position l = (log_blockNumber l, log_transactionIndex l, log_logIndex l)"

text \<open>The row that \<open>checkEvents\<close> builds for a fetched log that is not stored.\<close>

definition supplement :: "nat \<Rightarrow> string \<Rightarrow> Log \<Rightarrow> string \<Rightarrow> string \<Rightarrow> int \<Rightarrow> EventStructure" where
  "supplement chain i log name args timestamp =
     \<lparr>ev_id = i, ev_chainId = chain, ev_name = name, ev_blockNumber = log_blockNumber log,
      ev_timestamp = Some timestamp, ev_blockHash = formatHexString (log_blockHash log),
      ev_txHash = formatHexString (the (log_transactionHash log)),
      ev_transactionIndex = log_transactionIndex log, ev_logIndex = log_logIndex log,
      ev_address = formatHexString (log_address log), ev_data = args\<rparr>"

text \<open>
  The loop over the fetched logs: a log whose id is in \<open>existed\<close> is taken out of the
  map; any other log that parses and whose block is available is appended to
  \<open>needSave\<close> and lowers \<open>reorgedBlockNumber\<close>.
\<close>

type_synonym check_state =
  "(string \<rightharpoonup> EventStructure) \<times> EventStructure list \<times> int option"

fun check_logs :: "World \<Rightarrow> nat \<Rightarrow> Log list \<Rightarrow> check_state \<Rightarrow> error + check_state" where
  "check_logs w chain [] acc = Inr acc"
| "check_logs w chain (log # rest) (existed, needSave, reorgedBlockNumber) =
     (case calcEventId (sha256 w) chain (log_address log) (log_blockHash log)
             (log_transactionHash log) (log_logIndex log) of
        Inl err \<Rightarrow> Inl err
      | Inr i \<Rightarrow>
          if existed i \<noteq> None
          then check_logs w chain rest (existed(i := None), needSave, reorgedBlockNumber)
          else
            (case parseLog w log of
               None \<Rightarrow> check_logs w chain rest (existed, needSave, reorgedBlockNumber)
             | Some (name, args) \<Rightarrow>
                 (case getBlockTimestamp w (log_blockNumber log) of
                    None \<Rightarrow> check_logs w chain rest (existed, needSave, reorgedBlockNumber)
                  | Some timestamp \<Rightarrow>
                      check_logs w chain rest
                        (existed, needSave @ [supplement chain i log name args timestamp],
                         Some (case reorgedBlockNumber of
                                 None \<Rightarrow> log_blockNumber log
                               | Some r \<Rightarrow> min r (log_blockNumber log))))))"

text \<open>The query of \<open>checkEvents\<close> for the stored events of a window.\<close>

definition window_condition :: "nat \<Rightarrow> int \<Rightarrow> int \<Rightarrow> FindOptions" where
  "window_condition chain from to =
     \<lparr>where_blockNumber = Some (BnRange None (Some from) None (Some to)),
      where_rest = (\<lambda>e. ev_chainId e = chain),
      fo_order = Unordered, fo_limit = None, fo_offset = None\<rparr>"

text \<open>
  The \<open>while (from <= to)\<close> loop of \<open>checkEvents\<close>, in windows of 1000 blocks. The
  \<open>for await\<close> consumer sends nothing back to the generator.
\<close>

function checkEvents_loop ::
  "World \<Rightarrow> Events \<Rightarrow> int \<Rightarrow> int \<Rightarrow> check_state \<Rightarrow> (error + check_state) option"
where
  "checkEvents_loop w s from to acc =
     (if from \<le> to
      then
        (let to' = min (from + 1000) to in
         case findAll s (window_condition (chainId s) from to') None None (\<lambda>events. None) of
           None \<Rightarrow> None
         | Some (batches, Some err) \<Rightarrow> Some (Inl err)
         | Some (batches, None) \<Rightarrow>
             (case acc of (existed, needSave, reorgedBlockNumber) \<Rightarrow>
               (case check_logs w (chainId s)
                       (sort_by (\<lambda>a b. compareLog (log_position a) (log_position b))
                          (fetchLogs w from to'))
                       (fold (\<lambda>event m. m(ev_id event \<mapsto> event)) (concat batches) existed,
                        needSave, reorgedBlockNumber) of
                  Inl err \<Rightarrow> Some (Inl err)
                | Inr acc' \<Rightarrow>
                    if to' = to then Some (Inr acc') else checkEvents_loop w s to' to acc')))
      else Some (Inr acc))"
  by pat_completeness auto
termination
  by (relation "measure (\<lambda>(w, s, from, to, acc). nat (to - from))") auto

declare checkEvents_loop.simps [simp del]

text \<open>\<open>checkEvents\<close> returns \<open>{needSave, needDestroy: [], reorgedBlockNumber}\<close>.\<close>

definition checkEvents ::
  "World \<Rightarrow> Events \<Rightarrow> int \<Rightarrow> int
   \<Rightarrow> (error + EventStructure list \<times> EventStructure list \<times> int option) option"
where
  "checkEvents w s from to =
     (case checkEvents_loop w s from to (Map.empty, [], None) of
        None \<Rightarrow> None
      | Some (Inl err) \<Rightarrow> Some (Inl err)
      | Some (Inr (existed, needSave, reorgedBlockNumber)) \<Rightarrow>
          Some (Inr (needSave, [], reorgedBlockNumber)))"

text \<open>
  \<open>commit\<close>: inside one transaction, destroy the events of \<open>needDestroy\<close> (by primary
  key) and create those of \<open>needSave\<close>; an exception rolls the tables back and gives
  \<open>false\<close>. What \<open>create\<close> did to the in-memory index list and the sequence of ids stays.
\<close>

definition destroy_event :: "EventStructure \<Rightarrow> Events \<Rightarrow> Events" where
  "destroy_event event s =
     s\<lparr>db_tables := (\<lambda>name. map_option (filter (\<lambda>r. ev_id r \<noteq> ev_id event))
                                (db_tables s name))\<rparr>"

fun create_all :: "EventStructure list \<Rightarrow> Events \<Rightarrow> error option \<times> Events" where
  "create_all [] s = (None, s)"
| "create_all (e # es) s =
     (case create e s of
        (Inl err, s') \<Rightarrow> (Some err, s')
      | (Inr r, s') \<Rightarrow> create_all es s')"

definition commit :: "EventStructure list \<Rightarrow> EventStructure list \<Rightarrow> Events \<Rightarrow> bool \<times> Events" where
  "commit needSave needDestroy s =
     (case create_all needSave (fold destroy_event needDestroy s) of
        (None, s') \<Rightarrow> (True, s')
      | (Some err, s') \<Rightarrow>
          (False, s'\<lparr>db_tables := db_tables s, db_EventIndex := db_EventIndex s\<rparr>))"

text \<open>The smallest block number of a list of events, if any.\<close>

definition min_block :: "EventStructure list \<Rightarrow> int option" where
  "min_block es = (if es = [] then None else Some (Min (ev_blockNumber ` set es)))"

text \<open>
  The event \<open>e\<close> is the supplement built from the fetched log \<open>log\<close>: the log has an
  id, parses, and its block's timestamp is available.
\<close>

definition origin :: "World \<Rightarrow> nat \<Rightarrow> EventStructure \<Rightarrow> Log \<Rightarrow> bool" where
  "origin w chain e log \<longleftrightarrow>
     (case calcEventId (sha256 w) chain (log_address log) (log_blockHash log)
             (log_transactionHash log) (log_logIndex log) of
        Inl err \<Rightarrow> False
      | Inr i \<Rightarrow>
          (case parseLog w log of
             None \<Rightarrow> False
           | Some (name, args) \<Rightarrow>
               (case getBlockTimestamp w (log_blockNumber log) of
                  None \<Rightarrow> False
                | Some timestamp \<Rightarrow> e = supplement chain i log name args timestamp)))"

text \<open>
  An example for the detector: the store holds the event of log A (block 5); the node
  returns log A and a log B (block 7) that is not stored. The hash is the identity here.
\<close>

definition logA :: Log where
  "logA = \<lparr>log_blockNumber = 5, log_blockHash = ''0xB5'', log_transactionHash = Some ''0xC5'',
           log_transactionIndex = 0, log_address = ''0xA'', log_logIndex = 0,
           log_removed = False\<rparr>"

definition logB :: Log where
  "logB = \<lparr>log_blockNumber = 7, log_blockHash = ''0xB7'', log_transactionHash = Some ''0xC7'',
           log_transactionIndex = 0, log_address = ''0xA'', log_logIndex = 1,
           log_removed = False\<rparr>"

definition world0 :: World where
  "world0 = \<lparr>sha256 = (\<lambda>str. str), fetchLogs = (\<lambda>from to. [logB, logA]),
             parseLog = (\<lambda>log. Some (''name'', ''{}'')),
             getBlockTimestamp = (\<lambda>n. Some 1000)\<rparr>"

definition evA :: EventStructure where
  "evA = supplement 1 ''1,a,b5,c5,0'' logA ''name'' ''{}'' 1000"

definition evB :: EventStructure where
  "evB = supplement 1 ''1,a,b7,c7,1'' logB ''name'' ''{}'' 1000"

definition store_A :: Events where
  "store_A = snd (create evA store_new)"

text \<open>The getter \<open>latestBlockNumber\<close> of \<open>Events\<close>.\<close>

definition events_latestBlockNumber :: "Events \<Rightarrow> int" where
  "events_latestBlockNumber s =
     (if indexes s \<noteq> [] then ix_blockNumber (last (indexes s)) else 0)"

text \<open>
  The conditions of \<open>findAllOrderByBTLASC\<close>: strictly after \<open>from\<close> (left open) and
  up to \<open>to\<close> (right closed), for a block number or a position.
\<close>

fun after_position :: "Target \<Rightarrow> EventStructure \<Rightarrow> bool" where
  "after_position (ToBlock n) e \<longleftrightarrow> ev_blockNumber e > n"
| "after_position (ToPos p) e \<longleftrightarrow>
     ev_blockNumber e > pos_blockNumber p
     \<or> (ev_blockNumber e = pos_blockNumber p \<and> ev_transactionIndex e > pos_transactionIndex p)
     \<or> (ev_blockNumber e = pos_blockNumber p \<and> ev_transactionIndex e = pos_transactionIndex p
          \<and> ev_logIndex e > pos_logIndex p)"

fun upto_position :: "Target \<Rightarrow> EventStructure \<Rightarrow> bool" where
  "upto_position (ToBlock n) e \<longleftrightarrow> ev_blockNumber e \<le> n"
| "upto_position (ToPos p) e \<longleftrightarrow>
     ev_blockNumber e < pos_blockNumber p
     \<or> (ev_blockNumber e = pos_blockNumber p \<and> ev_transactionIndex e < pos_transactionIndex p)
     \<or> (ev_blockNumber e = pos_blockNumber p \<and> ev_transactionIndex e = pos_transactionIndex p
          \<and> ev_logIndex e \<le> pos_logIndex p)"

fun target_blockNumber :: "Target \<Rightarrow> int" where
  "target_blockNumber (ToBlock n) = n"
| "target_blockNumber (ToPos p) = pos_blockNumber p"

definition position_of :: "EventStructure \<Rightarrow> EventPosition" where
  "position_of e = \<lparr>pos_blockNumber = ev_blockNumber e,
                    pos_transactionIndex = ev_transactionIndex e,
                    pos_logIndex = ev_logIndex e\<rparr>"

text \<open>
  \<open>findAllOrderByBTLASC(from, to, additional, limit)\<close>: a \<open>findAll\<close> ordered by position
  whose consumer, after each batch, sends back the condition anchored after the last
  event of the batch, with offset 0.
\<close>

definition ordered_condition ::
  "Events \<Rightarrow> Target \<Rightarrow> Target option \<Rightarrow> (EventStructure \<Rightarrow> bool) \<Rightarrow> nat option \<Rightarrow> nat option
   \<Rightarrow> FindOptions"
where
  "ordered_condition s from to additional limit offset =
     \<lparr>where_blockNumber = None,
      where_rest = (\<lambda>e. ev_chainId e = chainId s \<and> after_position from e \<and>
                       (case to of None \<Rightarrow> True | Some t \<Rightarrow> upto_position t e) \<and> additional e),
      fo_order = ByPosition, fo_limit = limit, fo_offset = offset\<rparr>"

definition findAllOrderByBTLASC ::
  "Events \<Rightarrow> Target \<Rightarrow> Target option \<Rightarrow> (EventStructure \<Rightarrow> bool) \<Rightarrow> nat
   \<Rightarrow> (EventStructure list list \<times> error option) option"
where
  "findAllOrderByBTLASC s from to additional limit =
     (let fromBlockNumber = target_blockNumber from;
          toBlockNumber = (case to of None \<Rightarrow> events_latestBlockNumber s
                           | Some t \<Rightarrow> target_blockNumber t)
      in if fromBlockNumber > toBlockNumber
         then Some ([], Some (Error ''invalid block number''))
         else findAll s (ordered_condition s from to additional (Some limit) None)
                (Some fromBlockNumber) (Some toBlockNumber)
                (\<lambda>batch. Some (ordered_condition s (ToPos (position_of (last batch))) to
                                 additional None (Some 0))))"

section \<open>The storage processor (\<open>Storage\<close>) and \<open>fromDBEvent\<close>\<close>

text \<open>A parsed log: the event name and its arguments (kept serialized).\<close>

type_synonym ParsedLog = "string \<times> string"

text \<open>
  \<open>fromDBEvent\<close>: the log object rebuilt from a stored event has the block number, the
  block hash, the transaction index, the address and the log index, and no
  \<open>transactionHash\<close>.
\<close>

definition fromDBEvent :: "EventStructure \<Rightarrow> Log \<times> ParsedLog" where
  "fromDBEvent event =
     (\<lparr>log_blockNumber = ev_blockNumber event, log_blockHash = ''0x'' @ ev_blockHash event,
       log_transactionHash = None, log_transactionIndex = ev_transactionIndex event,
       log_address = ''0x'' @ ev_address event, log_logIndex = ev_logIndex event,
       log_removed = False\<rparr>,
      (ev_name event, ev_data event))"

text \<open>
  \<open>findOne\<close>: probe, in index order, each sub-table whose block range holds the block
  number (every sub-table when there is none; no sub-table when \<open>where.blockNumber\<close> is
  an object, which compares as \<open>NaN\<close>) and return the first row that matches, with the
  name of its table.
\<close>

fun findOne_range :: "BlockCond option \<Rightarrow> int option \<Rightarrow> int \<Rightarrow> int \<Rightarrow> bool" where
  "findOne_range (Some (BnEq b)) explicit previous blockNumber \<longleftrightarrow>
     previous < b \<and> b \<le> blockNumber"
| "findOne_range (Some (BnRange gt gte lt lte)) explicit previous blockNumber \<longleftrightarrow> False"
| "findOne_range None (Some b) previous blockNumber \<longleftrightarrow> previous < b \<and> b \<le> blockNumber"
| "findOne_range None None previous blockNumber \<longleftrightarrow> True"

fun findOne_loop ::
  "Events \<Rightarrow> Condition \<Rightarrow> int option \<Rightarrow> int \<Rightarrow> EventIndex list
   \<Rightarrow> error + (string \<times> EventStructure) option"
where
  "findOne_loop s condition explicit previous [] = Inr None"
| "findOne_loop s condition explicit previous (index # rest) =
     (if findOne_range (where_blockNumber condition) explicit previous (ix_blockNumber index)
      then
        (case getModel index s of
           Inl err \<Rightarrow> Inl err
         | Inr name \<Rightarrow>
             (case db_tables s name of
                None \<Rightarrow> Inl (Error ''relation does not exist'')
              | Some rows \<Rightarrow>
                  (case filter (matches condition) rows of
                     [] \<Rightarrow> findOne_loop s condition explicit (ix_blockNumber index) rest
                   | r # rs \<Rightarrow> Inr (Some (name, r)))))
      else findOne_loop s condition explicit (ix_blockNumber index) rest)"

definition findOne ::
  "Events \<Rightarrow> Condition \<Rightarrow> int option \<Rightarrow> error + (string \<times> EventStructure) option"
where
  "findOne s condition explicitBlockNumber =
     findOne_loop s condition explicitBlockNumber (- 1) (indexes s)"

text \<open>
  What the storage processor adds to the outside world: the \<open>PROCESSED\<close> bit of a stored
  event's \<open>status\<close> (read, and set), and the instrument address among the arguments of
  a \<open>NewInstrument\<close> event.
\<close>

record StorageWorld = World +
  isProcessed :: "EventStructure \<Rightarrow> bool"
  markProcessed :: "EventStructure \<Rightarrow> EventStructure"
  instrumentAddress :: "string \<Rightarrow> string"

text \<open>
  The state of the \<open>Storage\<close> plugin: the event store, \<open>cache.blockNumber\<close>, the ids of
  the \<open>Instrument\<close> rows, and the hooks emitted so far (\<open>newParsedEvent\<close> with its three
  arguments, \<open>newStoredBlockNumber\<close>).
\<close>

record Storage =
  st_events :: Events
  st_blockNumber :: int
  st_instruments :: "string list"
  st_parsedEvents :: "(Log \<times> ParsedLog \<times> bool) list"
  st_storedBlockNumbers :: "int list"

text \<open>\<open>handleNewInstrumentEvent\<close>: a processed log is ignored; else the row is created.\<close>

definition handleNewInstrumentEvent ::
  "'a StorageWorld_scheme \<Rightarrow> ParsedLog \<Rightarrow> bool \<Rightarrow> Storage \<Rightarrow> error option \<times> Storage"
where
  "handleNewInstrumentEvent w parsed processed st =
     (if processed then (None, st)
      else
        (case calcId (sha256 w)
                [NumArg (int (chainId (st_events st))),
                 StrArg (Some (instrumentAddress w (snd parsed)))] of
           Inl err \<Rightarrow> (Some err, st)
         | Inr i \<Rightarrow>
             if i \<in> set (st_instruments st) then (Some (UniqueConstraintError ''Instruments''), st)
             else (None, st\<lparr>st_instruments := st_instruments st @ [i]\<rparr>)))"

text \<open>The row that \<open>processLogs\<close> stores for a new log.\<close>

definition stored_row :: "nat \<Rightarrow> string \<Rightarrow> Log \<Rightarrow> ParsedLog \<Rightarrow> EventStructure" where
  "stored_row chain i log parsed =
     \<lparr>ev_id = i, ev_chainId = chain, ev_name = fst parsed, ev_blockNumber = log_blockNumber log,
      ev_timestamp = None, ev_blockHash = formatHexString (log_blockHash log),
      ev_txHash = formatHexString (the (log_transactionHash log)),
      ev_transactionIndex = log_transactionIndex log, ev_logIndex = log_logIndex log,
      ev_address = formatHexString (log_address log), ev_data = snd parsed\<rparr>"

text \<open>
  The body of the \<open>for\<close> loop of \<open>processLogs\<close>, log by log, inside the \<open>try\<close> block:
  the first thing it does with a log is to compute its id. The result is the error
  thrown, or the latest block number; the state is the one reached.
\<close>

fun process_loop ::
  "'a StorageWorld_scheme \<Rightarrow> bool \<Rightarrow> (Log \<times> ParsedLog option) list \<Rightarrow> int \<Rightarrow> Storage
   \<Rightarrow> (error + int) \<times> Storage"
where
  "process_loop w reprocessing [] latest st = (Inr latest, st)"
| "process_loop w reprocessing ((log, given) # rest) latest st =
     (case calcEventId (sha256 w) (chainId (st_events st)) (log_address log) (log_blockHash log)
             (log_transactionHash log) (log_logIndex log) of
        Inl err \<Rightarrow> (Inl err, st)
      | Inr i \<Rightarrow>
     (case findOne (st_events st)
             \<lparr>where_blockNumber = Some (BnEq (log_blockNumber log)),
              where_rest = (\<lambda>e. ev_id e = i)\<rparr> None of
        Inl err \<Rightarrow> (Inl err, st)
      | Inr exists \<Rightarrow>
          if \<not> reprocessing \<and> exists \<noteq> None then process_loop w reprocessing rest latest st
          else
            (let latest' = (if log_blockNumber log > latest then log_blockNumber log else latest) in
             case (case given of None \<Rightarrow> parseLog w log | Some p \<Rightarrow> Some p) of
               None \<Rightarrow> process_loop w reprocessing rest latest' st
             | Some parsed \<Rightarrow>
                 (let processed = (case exists of None \<Rightarrow> False
                                   | Some (name, row) \<Rightarrow> isProcessed w row) in
                  case (if fst parsed = ''NewInstrument''
                        then handleNewInstrumentEvent w parsed processed st else (None, st)) of
                    (Some err, st1) \<Rightarrow> (Inl err, st1)
                  | (None, st1) \<Rightarrow>
                      (case (case exists of
                               Some (name, row) \<Rightarrow>
                                 if \<not> processed
                                 then (None, st1\<lparr>st_events := (st_events st1)
                                         \<lparr>db_tables := (db_tables (st_events st1))
                                            (name \<mapsto> map (\<lambda>r. if ev_id r = ev_id row
                                                              then markProcessed w row else r)
                                                      (the (db_tables (st_events st1) name)))\<rparr>\<rparr>)
                                 else (None, st1)
                             | None \<Rightarrow>
                                 (case create (markProcessed w
                                                 (stored_row (chainId (st_events st1)) i log parsed))
                                         (st_events st1) of
                                    (Inl err, s') \<Rightarrow> (Some err, st1\<lparr>st_events := s'\<rparr>)
                                  | (Inr r, s') \<Rightarrow> (None, st1\<lparr>st_events := s'\<rparr>))) of
                         (Some err, st2) \<Rightarrow> (Inl err, st2)
                       | (None, st2) \<Rightarrow>
                           process_loop w reprocessing rest latest'
                             (st2\<lparr>st_parsedEvents :=
                                    st_parsedEvents st2 @ [(log, parsed, processed)]\<rparr>))))))"

text \<open>
  \<open>processLogs(logs, parsedLogs?)\<close>: \<open>reprocessing\<close> is \<open>!!parsedLogs\<close>; an exception
  in the loop is caught, the transaction is rolled back (tables, index rows, instrument
  rows) and the result is \<open>false\<close>; otherwise \<open>cache.blockNumber\<close> becomes the latest
  block number and \<open>newStoredBlockNumber\<close> is emitted if it changed.
\<close>

definition processLogs ::
  "'a StorageWorld_scheme \<Rightarrow> Storage \<Rightarrow> Log list \<Rightarrow> ParsedLog list option \<Rightarrow> bool \<times> Storage"
where
  "processLogs w st ls parsedLogs =
     (case process_loop w (parsedLogs \<noteq> None)
             (map (\<lambda>k. (ls ! k,
                         case parsedLogs of
                           None \<Rightarrow> None
                         | Some ps \<Rightarrow> if k < length ps then Some (ps ! k) else None))
                  [0 ..< length ls])
             (st_blockNumber st) st of
        (Inl err, st') \<Rightarrow>
          (False, st'\<lparr>st_events := (st_events st')
                         \<lparr>db_tables := db_tables (st_events st),
                          db_EventIndex := db_EventIndex (st_events st)\<rparr>,
                       st_instruments := st_instruments st\<rparr>)
      | (Inr latest, st') \<Rightarrow>
          (True, st'\<lparr>st_blockNumber := latest,
                      st_storedBlockNumbers :=
                        (if st_blockNumber st \<noteq> latest then st_storedBlockNumbers st' @ [latest]
                         else st_storedBlockNumbers st')\<rparr>))"

text \<open>
  \<open>Storage.reorg(reorgBlockNumber)\<close>: every batch of
  \<open>findAllOrderByBTLASC(reorgBlockNumber - 1)\<close> is mapped through \<open>fromDBEvent\<close> and given
  to \<open>processLogs\<close> with its parsed logs; the result of \<open>processLogs\<close> is ignored. The
  batches are those of the store at the start: on this path \<open>processLogs\<close> neither
  inserts nor deletes rows, since every event it is given is stored already.
\<close>

definition reorg ::
  "'a StorageWorld_scheme \<Rightarrow> Storage \<Rightarrow> int \<Rightarrow> (error option \<times> Storage) option"
where
  "reorg w st reorgBlockNumber =
     (case findAllOrderByBTLASC (st_events st) (ToBlock (reorgBlockNumber - 1)) None
             (\<lambda>e. True) 1000 of
        None \<Rightarrow> None
      | Some (batches, err) \<Rightarrow>
          Some (err,
                fold (\<lambda>events st.
                        snd (processLogs w st (map (\<lambda>e. fst (fromDBEvent e)) events)
                               (Some (map (\<lambda>e. snd (fromDBEvent e)) events))))
                     batches st))"

text \<open>
  An example for \<open>Storage.reorg\<close>: the store after the detector has supplemented the
  event of log B (block 7), as \<open>checkEventsAndCommit\<close> leaves it before it calls
  \<open>storage.reorg(7)\<close>.
\<close>

definition storage_world :: StorageWorld where
  "storage_world = \<lparr>sha256 = (\<lambda>str. str), fetchLogs = (\<lambda>from to. [logB, logA]),
             parseLog = (\<lambda>log. Some (''name'', ''{}'')),
             getBlockTimestamp = (\<lambda>n. Some 1000),
             isProcessed = (\<lambda>e. False), markProcessed = (\<lambda>e. e),
             instrumentAddress = (\<lambda>d. ''0xA'')\<rparr>"

definition storage_AB :: Storage where
  "storage_AB = \<lparr>st_events = snd (commit [evB] [] store_A), st_blockNumber = 20,
                 st_instruments = [], st_parsedEvents = [], st_storedBlockNumbers = []\<rparr>"

text \<open>The key of a position in the lexicographic order.\<close>

definition pos_key :: "EventPosition \<Rightarrow> int \<times> int \<times> int" where
  "pos_key p = (pos_blockNumber p, pos_transactionIndex p, pos_logIndex p)"

text \<open>The part of the condition of \<open>findAllOrderByBTLASC\<close> that stays the same from page to page.\<close>

definition fixed_condition ::
  "Events \<Rightarrow> Target option \<Rightarrow> (EventStructure \<Rightarrow> bool) \<Rightarrow> EventStructure \<Rightarrow> bool"
where
  "fixed_condition s to additional e \<longleftrightarrow>
     ev_chainId e = chainId s \<and> (case to of None \<Rightarrow> True | Some t \<Rightarrow> upto_position t e)
     \<and> additional e"

text \<open>
  The events of the store: the rows of the sub-tables of the index rows; and those of the
  store's chain in the order of their positions.
\<close>

definition stored_events :: "Events \<Rightarrow> EventStructure list" where
  "stored_events s = concat (map (\<lambda>index. table_rows s (ix_index index)) (indexes s))"

definition ordered_events :: "Events \<Rightarrow> EventStructure list" where
  "ordered_events s =
     sort_key ev_position (filter (\<lambda>e. ev_chainId e = chainId s) (stored_events s))"

section \<open>Snapshots: \<open>replay\<close> and \<open>getSnapshot\<close>\<close>

text \<open>
  The SDK as far as \<open>getSnapshot\<close> uses it: \<open>sdk.ctx.chainId\<close>, and the class \<open>Snapshot\<close>
  with \<open>new Snapshot(sdk)\<close>, \<open>processParsedLog\<close>, \<open>serialize\<close> and \<open>deserialize\<close>. A snapshot
  object is mutated in place; here each method returns the next value.
\<close>

record 'snap SDK =
  ctx_chainId :: nat
  new_Snapshot :: 'snap
  processParsedLog :: "Log \<Rightarrow> ParsedLog \<Rightarrow> 'snap \<Rightarrow> 'snap"
  serialize :: "'snap \<Rightarrow> string"
  deserialize :: "string \<Rightarrow> 'snap \<Rightarrow> 'snap"

text \<open>The body of the inner loop of \<open>replay\<close> for one event.\<close>

definition apply_event :: "'snap SDK \<Rightarrow> EventStructure \<Rightarrow> 'snap \<Rightarrow> 'snap" where
  "apply_event sdk event snapshot =
     (case fromDBEvent event of (log, parsedLog) \<Rightarrow> processParsedLog sdk log parsedLog snapshot)"

text \<open>The body of the outer loop for one batch: the state is the snapshot and \<open>latest\<close>.\<close>

definition replay_batch ::
  "'snap SDK \<Rightarrow> EventStructure list \<Rightarrow> 'snap \<times> EventPosition \<Rightarrow> 'snap \<times> EventPosition"
where
  "replay_batch sdk batch state =
     (fold (apply_event sdk) batch (fst state), position_of (last batch))"

text \<open>
  \<open>replay(events, snapshot, from, to)\<close> without an abort signal: the position reached (or
  the error thrown by the generator), and the snapshot as the loop leaves it.
\<close>

definition replay ::
  "'snap SDK \<Rightarrow> Events \<Rightarrow> 'snap \<Rightarrow> EventPosition \<Rightarrow> Target option
   \<Rightarrow> ((error + EventPosition) \<times> 'snap) option"
where
  "replay sdk events snapshot from to =
     (case findAllOrderByBTLASC events (ToPos from) to (\<lambda>e. True) 1000 of
        None \<Rightarrow> None
      | Some (batches, err) \<Rightarrow>
          (let state = fold (replay_batch sdk) batches (snapshot, from)
           in Some (case err of None \<Rightarrow> Inr (snd state) | Some e \<Rightarrow> Inl e, fst state)))"

text \<open>A row of the table \<open>Snapshot\<close>, and \<open>SnapshotTable.findOne\<close> as \<open>getSnapshot\<close> calls it.\<close>

record SnapshotRow =
  sn_chainId :: nat
  sn_blockNumber :: int
  sn_transactionIndex :: int
  sn_logIndex :: int
  sn_snapshot :: string

definition row_position :: "SnapshotRow \<Rightarrow> EventPosition" where
  "row_position r = \<lparr>pos_blockNumber = sn_blockNumber r,
                     pos_transactionIndex = sn_transactionIndex r,
                     pos_logIndex = sn_logIndex r\<rparr>"

fun row_upto :: "Target \<Rightarrow> SnapshotRow \<Rightarrow> bool" where
  "row_upto (ToBlock n) r \<longleftrightarrow> sn_blockNumber r \<le> n"
| "row_upto (ToPos p) r \<longleftrightarrow>
     sn_blockNumber r < pos_blockNumber p
     \<or> (sn_blockNumber r = pos_blockNumber p \<and> sn_transactionIndex r < pos_transactionIndex p)
     \<or> (sn_blockNumber r = pos_blockNumber p \<and> sn_transactionIndex r = pos_transactionIndex p
          \<and> sn_logIndex r \<le> pos_logIndex p)"

definition snapshot_findOne :: "nat \<Rightarrow> Target \<Rightarrow> SnapshotRow list \<Rightarrow> SnapshotRow option" where
  "snapshot_findOne chain to table =
     (case rev (sort_key (\<lambda>r. pos_key (row_position r))
                  (filter (\<lambda>r. sn_chainId r = chain \<and> row_upto to r) table)) of
        [] \<Rightarrow> None
      | r # rs \<Rightarrow> Some r)"

text \<open>
  \<open>getSnapshot(sdk, events, to, from)\<close>: the base is \<open>from\<close> if given, else the latest
  stored snapshot up to \<open>to\<close>, else the new snapshot at position (0, 0, 0).
\<close>

definition getSnapshot ::
  "'snap SDK \<Rightarrow> SnapshotRow list \<Rightarrow> Events \<Rightarrow> Target \<Rightarrow> ('snap \<times> EventPosition) option
   \<Rightarrow> ((error + EventPosition) \<times> 'snap) option"
where
  "getSnapshot sdk table events to from =
     (case from of
        Some (snapshot, position) \<Rightarrow> replay sdk events snapshot position (Some to)
      | None \<Rightarrow>
          (case snapshot_findOne (ctx_chainId sdk) to table of
             None \<Rightarrow>
               replay sdk events (new_Snapshot sdk)
                 \<lparr>pos_blockNumber = 0, pos_transactionIndex = 0, pos_logIndex = 0\<rparr> (Some to)
           | Some row \<Rightarrow>
               replay sdk events (deserialize sdk (sn_snapshot row) (new_Snapshot sdk))
                 (row_position row) (Some to)))"

text \<open>
  The snapshot of a position: the new snapshot after all stored events up to the position,
  applied in the order of their positions.
\<close>

definition snapshot_at :: "'snap SDK \<Rightarrow> Events \<Rightarrow> EventPosition \<Rightarrow> 'snap" where
  "snapshot_at sdk s p =
     fold (apply_event sdk) (filter (upto_position (ToPos p)) (ordered_events s))
       (new_Snapshot sdk)"

section \<open>Properties of the ingestor\<close>

lemma confirm_loop_all:
  "confirm_loop bound ls (confirming, confirmed) = (confirming, confirmed @ ls)"
  by (induction ls arbitrary: confirmed) auto

lemma confirm_releases_everything:
  assumes "confirmingLogs s \<noteq> []"
  shows "confirmingLogs (confirm s) = []"
    and "logs (confirm s) = logs s @ [sort_by compareMixedLog (confirmingLogs s)]"
proof -
  have ne: "sort_by compareMixedLog (confirmingLogs s) \<noteq> []"
  proof -
    have "\<And>x xs. insert_by compareMixedLog x xs \<noteq> []"
      by (case_tac xs) auto
    then show ?thesis using assms(1)
      by (cases "confirmingLogs s") (auto simp: sort_by_def)
  qed
  show "confirmingLogs (confirm s) = []"
    using assms ne by (simp add: confirm_def confirm_loop_all)
  show "logs (confirm s) = logs s @ [sort_by compareMixedLog (confirmingLogs s)]"
    using assms ne by (simp add: confirm_def confirm_loop_all)
qed

text \<open>
  C1. The claim: on a head update the confirm step releases exactly the held logs with
  \<open>blockNumber \<le> head - C\<close> and keeps the others; with \<open>C = 2\<close>, logs at blocks
  100..103 injected at head 103 and then head 104, only the block-102 log is released.
  The code at that input: the four logs arrive one by one from the subscription at head
  103 (100 and 101 go downstream at once, 102 and 103 are held); the head update to 104
  releases both held logs, 102 and also 103 (which is above \<open>104 - 2\<close>), and holds nothing.
\<close>

theorem C1_confirm_releases_unconfirmed_log:
  "(let s = processBlockNumber Some 104
              (foldl (\<lambda>s l. addLogs FromSubscribe [PlainLog l] s) source0
                 [mkLog 100 0 0, mkLog 101 0 0, mkLog 102 0 0, mkLog 103 0 0])
    in logs s = [[PlainLog (mkLog 100 0 0)], [PlainLog (mkLog 101 0 0)],
                 [PlainLog (mkLog 102 0 0), PlainLog (mkLog 103 0 0)]]
       \<and> confirmingLogs s = [])"
  by (simp add: source0_def addLogs_def mkLog_def processBlockNumber_def confirm_def
      sort_by_def compareMixedLog_def compareLog_def ml_position_def Let_def)

section \<open>Properties of the request handler\<close>

lemma snapshotId_example:
  "snapshotId 81457 (ToPos \<lparr>pos_blockNumber = 2737538, pos_transactionIndex = 10,
      pos_logIndex = 23\<rparr>) = ''81457-2737538-10-23''"
  by (simp add: numToString_def digits.simps digit_char_def)

lemma generateSnapshot_example:
  assumes "gs (ToPos \<lparr>pos_blockNumber = 2737538, pos_transactionIndex = 10, pos_logIndex = 23\<rparr>)
             = Inr r"
  shows "fst (handleGenerateSnapshot 81457 gs
           (Some (JObj [(''blockNumber'', JNum 2737538), (''transactionIndex'', JNum 10),
                        (''logIndex'', JNum 23)]))
           \<lparr>generating = [], generated = Map.empty\<rparr>) = Inr ''81457-2737538-10-23''"
  using assms
  by (cases r)
     (simp add: handleGenerateSnapshot_def generate_def Let_def snapshotId_example
        del: snapshotId.simps)

text \<open>
  C8. The claim: for every \<open>params\<close> value \<open>handleGenerateSnapshot\<close> throws a JSON-RPC
  error with code \<open>-32600\<close> unless \<open>blockNumber\<close> is a number and \<open>transactionIndex\<close>
  and \<open>logIndex\<close> are both numbers or both absent. The code at \<open>params = null\<close>:
  \<open>typeof null\<close> is \<open>object\<close>, so the first test passes and reading
  \<open>params.blockNumber\<close> throws a \<open>TypeError\<close>, which the response reports with the
  internal-error code \<open>-32603\<close>; the handler's maps are unchanged.
\<close>

theorem C8_null_params_type_error:
  "handleGenerateSnapshot 81457 gs (Some JNull) h
     = (Inl (TypeError ''Cannot read properties of null''), h)
   \<and> formatJSONRPCError_code (TypeError ''Cannot read properties of null'') = - 32603
   \<and> InvalidRequest = - 32600"
  by (simp add: handleGenerateSnapshot_def Internal_def InvalidRequest_def)

theorem C8_null_params_type_error_witness:
  "handleGenerateSnapshot 81457 (\<lambda>to. Inr ((0::nat), \<lparr>pos_blockNumber = 0,
        pos_transactionIndex = 0, pos_logIndex = 0\<rparr>)) (Some JNull)
       \<lparr>generating = [], generated = Map.empty\<rparr>
     = (Inl (TypeError ''Cannot read properties of null''),
        \<lparr>generating = [], generated = Map.empty\<rparr>)"
  using C8_null_params_type_error
    [of "\<lambda>to. Inr ((0::nat), \<lparr>pos_blockNumber = 0, pos_transactionIndex = 0,
             pos_logIndex = 0\<rparr>)" "\<lparr>generating = [], generated = Map.empty\<rparr>"]
  by simp


section \<open>Properties of the event store\<close>

subsection \<open>Table names and \<open>init\<close>\<close>

lemma digit_char_inj: "a < 10 \<Longrightarrow> b < 10 \<Longrightarrow> digit_char a = digit_char b \<Longrightarrow> a = b"
proof -
  assume a: "a < 10" and b: "b < 10" and e: "digit_char a = digit_char b"
  have A: "a \<in> {0,1,2,3,4,5,6,7,8,9}" using a by auto
  have B: "b \<in> {0,1,2,3,4,5,6,7,8,9}" using b by auto
  show ?thesis using A B e unfolding digit_char_def by auto
qed

lemma digits_nonempty: "digits n \<noteq> []"
  by (subst digits.simps) simp

lemma digits_last: "last (digits n) = digit_char (n mod 10)"
  by (subst digits.simps) simp

lemma digits_butlast: "butlast (digits n) = (if n < 10 then [] else digits (n div 10))"
  by (subst digits.simps) simp

lemma digits_inj: "digits m = digits n \<Longrightarrow> m = n"
proof (induction m arbitrary: n rule: digits.induct)
  case (1 m)
  have l: "digit_char (m mod 10) = digit_char (n mod 10)"
    using "1.prems" digits_last by metis
  then have lm: "m mod 10 = n mod 10"
    by (intro digit_char_inj) auto
  have bl: "butlast (digits m) = butlast (digits n)" using "1.prems" by simp
  show ?case
  proof (cases "m < 10")
    case True
    then have "n < 10" using bl digits_nonempty[of "n div 10"] by (auto simp: digits_butlast split: if_splits)
    then show ?thesis using True lm by simp
  next
    case False
    then have n10: "\<not> n < 10" using bl digits_nonempty[of "m div 10"] by (auto simp: digits_butlast split: if_splits)
    then have "digits (m div 10) = digits (n div 10)" using bl False by (simp add: digits_butlast)
    then have "m div 10 = n div 10" using "1.IH" False by blast
    then show ?thesis using lm by (metis div_mult_mod_eq)
  qed
qed

lemma concatModelName_inj: "concatModelName c i = concatModelName c j \<longleftrightarrow> i = j"
  by (auto simp: concatModelName_def dest: digits_inj)

lemma syncModel_fields [simp]:
  "chainId (syncModel i s) = chainId s"
  "indexes (syncModel i s) = indexes s"
  "initializing (syncModel i s) = initializing s"
  "maxSizeForSingleTable (syncModel i s) = maxSizeForSingleTable s"
  "db_EventIndex (syncModel i s) = db_EventIndex s"
  "db_nextId (syncModel i s) = db_nextId s"
  by (simp_all add: syncModel_def Let_def)

lemma syncModel_models: "set (models (syncModel i s)) = insert (concatModelName (chainId s) i) (set (models s))"
  by (auto simp: syncModel_def Let_def)

lemma fold_syncModel_fields [simp]:
  "chainId (fold syncModel is s) = chainId s"
  "indexes (fold syncModel is s) = indexes s"
  "initializing (fold syncModel is s) = initializing s"
  "maxSizeForSingleTable (fold syncModel is s) = maxSizeForSingleTable s"
  "db_EventIndex (fold syncModel is s) = db_EventIndex s"
  "db_nextId (fold syncModel is s) = db_nextId s"
  by (induction "is" arbitrary: s; simp)+

lemma fold_syncModel_models:
  "set (models (fold syncModel is s)) = concatModelName (chainId s) ` set is \<union> set (models s)"
  by (induction "is" arbitrary: s) (auto simp: syncModel_models)

lemma syncModel_tables_exist:
  "\<forall>n \<in> set (models s). db_tables s n \<noteq> None \<Longrightarrow>
   \<forall>n \<in> set (models (syncModel i s)). db_tables (syncModel i s) n \<noteq> None"
  by (auto simp: syncModel_def Let_def split: option.splits)

lemma fold_syncModel_tables_exist:
  "\<forall>n \<in> set (models s). db_tables s n \<noteq> None \<Longrightarrow>
   \<forall>n \<in> set (models (fold syncModel is s)). db_tables (fold syncModel is s) n \<noteq> None"
proof (induction "is" arbitrary: s)
  case Nil then show ?case by simp
next
  case (Cons i "is")
  show ?case using Cons.IH[OF syncModel_tables_exist[OF Cons.prems]] by simp
qed

lemma init_indexes: "\<not> initializing s \<Longrightarrow> indexes (init s) = loaded_indexes s"
  by (simp add: init_def Let_def loaded_indexes_def)

lemma init_models:
  assumes "\<not> initializing s" "models s = []"
  shows "set (models (init s)) =
     concatModelName (chainId s) `
       (ix_index ` set (loaded_indexes s) \<union>
        {(if loaded_indexes s \<noteq> [] then ix_index (last (loaded_indexes s)) else 0) ..< 30})"
  using assms
  by (simp add: init_def Let_def fold_syncModel_models loaded_indexes_def image_Un Un_commute)

lemma init_tables_exist:
  assumes "\<not> initializing s" "models s = []"
  shows "\<forall>n \<in> set (models (init s)). db_tables (init s) n \<noteq> None"
  using assms
  by (simp add: init_def Let_def fold_syncModel_tables_exist)

lemma fold_syncModel_closed:
  assumes "models s = map (concatModelName (chainId s)) js" "distinct (js @ is)"
  shows "models (fold syncModel is s) = map (concatModelName (chainId s)) (js @ is)
       \<and> db_tables (fold syncModel is s) =
           (\<lambda>n. if n \<in> concatModelName (chainId s) ` set is \<and> db_tables s n = None then Some []
                else db_tables s n)"
  using assms
proof (induction "is" arbitrary: s js)
  case Nil
  then show ?case by simp
next
  case (Cons i "is")
  let ?s1 = "syncModel i s"
  have notin: "concatModelName (chainId s) i \<notin> set (models s)"
    using Cons.prems by (auto simp: concatModelName_inj)
  have m1: "models ?s1 = map (concatModelName (chainId ?s1)) (js @ [i])"
    using notin Cons.prems by (simp add: syncModel_def Let_def)
  have d1: "distinct ((js @ [i]) @ is)" using Cons.prems by auto
  have t1: "db_tables ?s1 = (\<lambda>n. if n = concatModelName (chainId s) i \<and> db_tables s n = None then Some [] else db_tables s n)"
    using notin by (auto simp: syncModel_def Let_def fun_eq_iff split: option.splits)
  from Cons.IH[OF m1 d1] show ?case
    by (auto simp: t1 fun_eq_iff)
qed

lemma init_fresh_empty:
  "init (newEvents c n [] i Map.empty) =
     \<lparr>chainId = c, maxSizeForSingleTable = n, initializing = True,
      models = map (concatModelName c) [0..<30], indexes = [], db_EventIndex = [],
      db_nextId = i,
      db_tables = (\<lambda>name. if name \<in> concatModelName c ` {0..<30} then Some [] else None)\<rparr>"
proof -
  let ?s1 = "(newEvents c n [] i Map.empty)\<lparr>initializing := True, indexes := []\<rparr>"
  have "models ?s1 = map (concatModelName (chainId ?s1)) []" by (simp add: newEvents_def)
  from fold_syncModel_closed[OF this, of "[0..<30]"]
  have "models (fold syncModel [0..<30] ?s1) = map (concatModelName c) [0..<30]"
    and "db_tables (fold syncModel [0..<30] ?s1) = (\<lambda>name. if name \<in> concatModelName c ` {0..<30} then Some [] else None)"
    by (auto simp: newEvents_def fun_eq_iff)
  moreover have "init (newEvents c n [] i Map.empty) = fold syncModel [0..<30] ?s1"
    by (simp add: init_def newEvents_def Let_def)
  ultimately show ?thesis
    by (intro Events.equality) (simp_all add: newEvents_def)
qed

lemma fold_syncModel_dom:
  "dom (db_tables (fold syncModel is s)) \<subseteq> dom (db_tables s) \<union> concatModelName (chainId s) ` set is"
proof (induction "is" arbitrary: s)
  case Nil then show ?case by simp
next
  case (Cons i "is")
  have "dom (db_tables (syncModel i s)) \<subseteq> dom (db_tables s) \<union> {concatModelName (chainId s) i}"
    by (auto simp: syncModel_def Let_def split: option.splits if_splits)
  with Cons[of "syncModel i s"] show ?case by auto
qed

lemma init_dom:
  assumes "\<not> initializing s"
  shows "dom (db_tables (init s)) \<subseteq> dom (db_tables s) \<union>
     concatModelName (chainId s) `
       (ix_index ` set (loaded_indexes s) \<union>
        {(if loaded_indexes s \<noteq> [] then ix_index (last (loaded_indexes s)) else 0) ..< 30})"
proof -
  let ?s1 = "s\<lparr>initializing := True, indexes := loaded_indexes s\<rparr>"
  let ?s2 = "fold syncModel (map ix_index (loaded_indexes s)) ?s1"
  have i: "init s = fold syncModel [(if loaded_indexes s \<noteq> [] then ix_index (last (loaded_indexes s)) else 0) ..< 30] ?s2"
    using assms by (simp add: init_def Let_def loaded_indexes_def)
  have a: "dom (db_tables ?s2) \<subseteq> dom (db_tables s) \<union> concatModelName (chainId s) ` ix_index ` set (loaded_indexes s)"
    using fold_syncModel_dom[of "map ix_index (loaded_indexes s)" ?s1] by simp
  let ?a = "(if loaded_indexes s \<noteq> [] then ix_index (last (loaded_indexes s)) else 0)"
  have b: "dom (db_tables (fold syncModel [?a ..< 30] ?s2)) \<subseteq> dom (db_tables ?s2) \<union> concatModelName (chainId s) ` {?a ..< 30}"
    using fold_syncModel_dom[of "[?a ..< 30]" ?s2] by simp
  show ?thesis unfolding i
    using order_trans[OF b Un_mono[OF a subset_refl]] by (simp add: Un_assoc image_Un)
qed

lemma loaded_store_one: "loaded_indexes store_one = [\<lparr>ix_id = 1, ix_chainId = 1, ix_blockNumber = 10, ix_index = 0, ix_size = 1\<rparr>]"
  by (simp add: loaded_indexes_def store_one_def newEvents_def)

text \<open>
  C2, as stated: after \<open>init\<close> the tables \<open>events_{chainId}_0\<close> to
  \<open>events_{chainId}_{last+30}\<close> exist. On a database whose only index row is that
  of sub-table 0 (\<open>last = 0\<close>), \<open>init\<close> leaves \<open>events_1_30\<close> out of the model
  map and does not create the table.
\<close>

theorem C2_counterexample:
  "map ix_index (indexes (init store_one)) = [0]
   \<and> concatModelName 1 (0 + 30) \<notin> set (models (init store_one))
   \<and> db_tables (init store_one) (concatModelName 1 (0 + 30)) = None"
proof -
  have f: "\<not> initializing store_one" "models store_one = []" "chainId store_one = 1"
    by (simp_all add: store_one_def newEvents_def)
  have 1: "map ix_index (indexes (init store_one)) = [0]"
    using init_indexes[OF f(1)] by (simp add: loaded_store_one)
  have 2: "concatModelName 1 (0 + 30) \<notin> set (models (init store_one))"
    using init_models[OF f(1,2)] by (auto simp: loaded_store_one f concatModelName_inj)
  have d: "dom (db_tables store_one) = {concatModelName 1 0}"
    by (simp add: store_one_def newEvents_def)
  have "concatModelName 1 (0 + 30) \<notin> dom (db_tables (init store_one))"
    using init_dom[OF f(1)] unfolding d loaded_store_one f(3)
    by (auto simp: concatModelName_inj)
  then have 3: "db_tables (init store_one) (concatModelName 1 (0 + 30)) = None" by blast
  show ?thesis using 1 2 3 by blast
qed

text \<open>
  C2, amended: \<open>init\<close> loads the chain's index rows ordered by \<open>id\<close>; afterwards
  the model map holds exactly the tables of the loaded rows' indexes and of the indexes
  from \<open>last\<close> (0 without rows) up to 29, and each of these tables exists. Nothing
  beyond index \<open>max last 29\<close> is created.
\<close>

theorem C2_init_syncs_up_to_29:
  assumes "\<not> initializing s" and "models s = []"
  shows "indexes (init s) =
           sort_key ix_id (filter (\<lambda>r. ix_chainId r = chainId s) (db_EventIndex s))
       \<and> set (models (init s)) =
           concatModelName (chainId s) `
             (ix_index ` set (indexes (init s)) \<union>
              {(if indexes (init s) \<noteq> [] then ix_index (last (indexes (init s))) else 0) ..< 30})
       \<and> (\<forall>name \<in> set (models (init s)). db_tables (init s) name \<noteq> None)"
  using init_indexes[OF assms(1)] init_models[OF assms] init_tables_exist[OF assms]
  by (simp add: loaded_indexes_def)

theorem C2_init_syncs_up_to_29_witness:
  "indexes (init store_one) = [\<lparr>ix_id = 1, ix_chainId = 1, ix_blockNumber = 10, ix_index = 0, ix_size = 1\<rparr>]
   \<and> set (models (init store_one)) = concatModelName 1 ` {0 ..< 30}
   \<and> concatModelName 1 29 \<in> set (models (init store_one))
   \<and> db_tables (init store_one) (concatModelName 1 29) \<noteq> None"
proof -
  have f: "\<not> initializing store_one" "models store_one = []"
    by (simp_all add: store_one_def newEvents_def)
  have l: "sort_key ix_id (filter (\<lambda>r. ix_chainId r = 1) (db_EventIndex store_one))
      = [\<lparr>ix_id = 1, ix_chainId = 1, ix_blockNumber = 10, ix_index = 0, ix_size = 1\<rparr>]"
    by (simp add: store_one_def newEvents_def)
  have c: "chainId store_one = 1" by (simp add: store_one_def newEvents_def)
  note t = C2_init_syncs_up_to_29[OF f, unfolded c, unfolded l]
  have i: "indexes (init store_one) = [\<lparr>ix_id = 1, ix_chainId = 1, ix_blockNumber = 10, ix_index = 0, ix_size = 1\<rparr>]"
    using t by blast
  have m: "set (models (init store_one)) = concatModelName 1 ` {0 ..< 30}"
    using t unfolding i by (simp add: insert_absorb)
  have "concatModelName 1 29 \<in> set (models (init store_one))" unfolding m by simp
  then show ?thesis using t i m by blast
qed

lemma model_create_fields [simp]:
  "models (snd (model_create n e s)) = models s"
  "chainId (snd (model_create n e s)) = chainId s"
  "indexes (snd (model_create n e s)) = indexes s"
  "maxSizeForSingleTable (snd (model_create n e s)) = maxSizeForSingleTable s"
  "initializing (snd (model_create n e s)) = initializing s"
  "db_EventIndex (snd (model_create n e s)) = db_EventIndex s"
  "db_nextId (snd (model_create n e s)) = db_nextId s"
  by (simp_all add: model_create_def split: option.splits)

lemma insert_event_fields [simp]:
  "models (snd (insert_event e k s)) = models s"
  "chainId (snd (insert_event e k s)) = chainId s"
  "maxSizeForSingleTable (snd (insert_event e k s)) = maxSizeForSingleTable s"
  "initializing (snd (insert_event e k s)) = initializing s"
  "length (indexes (snd (insert_event e k s))) = length (indexes s)"
  by (simp_all add: insert_event_def Let_def split: sum.splits)

lemma create_fields [simp]:
  "models (snd (create e s)) = models s"
  "chainId (snd (create e s)) = chainId s"
  "maxSizeForSingleTable (snd (create e s)) = maxSizeForSingleTable s"
  "initializing (snd (create e s)) = initializing s"
  by (simp_all add: create_def Let_def split: sum.splits option.splits)

lemma destroyOne_fields [simp]:
  "models (snd (destroyOne c b s)) = models s"
  "chainId (snd (destroyOne c b s)) = chainId s"
  "maxSizeForSingleTable (snd (destroyOne c b s)) = maxSizeForSingleTable s"
  "initializing (snd (destroyOne c b s)) = initializing s"
  "length (indexes (snd (destroyOne c b s))) = length (indexes s)"
  by (simp_all add: destroyOne_def Let_def split: sum.splits option.splits BlockCond.splits)

lemma exec_models: "exec ops s = Some s' \<Longrightarrow> models s' = models s \<and> chainId s' = chainId s"
proof (induction ops arbitrary: s)
  case Nil then show ?case by simp
next
  case (Cons op ops)
  show ?case
  proof (cases op)
    case (Create e)
    obtain r s1 where c: "create e s = (r, s1)" by (cases "create e s")
    then have "models s1 = models s" "chainId s1 = chainId s"
      using create_fields(1,2)[of e s] by simp_all
    then show ?thesis using Cons Create c by (auto split: sum.splits)
  next
    case (DestroyOne c b)
    obtain r s1 where d: "destroyOne c b s = (r, s1)" by (cases "destroyOne c b s")
    then have "models s1 = models s" "chainId s1 = chainId s"
      using destroyOne_fields(1,2)[of c b s] by simp_all
    then show ?thesis using Cons DestroyOne d by (auto split: sum.splits)
  qed
qed

text \<open>
  C10. \<open>create\<close> throws \<open>unknown model\<close> when it has to allocate a sub-table whose index
  is above 29 and above every index loaded by \<open>init\<close>: the model map, filled by \<open>init\<close>
  only, has no such table. The new index row is in the \<open>EventIndex\<close> table and in the
  in-memory list when the error is thrown.
\<close>

theorem C10_create_unknown_model:
  assumes fresh: "\<not> initializing s0" "models s0 = []"
    and later: "models s = models (init s0)" "chainId s = chainId s0"
    and alloc: "find_range (ev_blockNumber e) (- 1) (indexes s) 0 = None"
               "\<not> ix_size (last (indexes s)) < maxSizeForSingleTable s"
    and above: "29 < length (indexes s)"
               "\<forall>index \<in> set (indexes (init s0)). ix_index index < length (indexes s)"
  shows "create e s =
     (Inl (Error ''unknown model''),
      s\<lparr>db_EventIndex := db_EventIndex s @
            [\<lparr>ix_id = db_nextId s, ix_chainId = ev_chainId e, ix_blockNumber = ev_blockNumber e,
              ix_index = length (indexes s), ix_size = 1\<rparr>],
        db_nextId := Suc (db_nextId s),
        indexes := indexes s @
            [\<lparr>ix_id = db_nextId s, ix_chainId = ev_chainId e, ix_blockNumber = ev_blockNumber e,
              ix_index = length (indexes s), ix_size = 1\<rparr>]\<rparr>)"
proof -
  let ?n = "length (indexes s)"
  have "concatModelName (chainId s0) ?n \<notin> set (models (init s0))"
  proof
    assume "concatModelName (chainId s0) ?n \<in> set (models (init s0))"
    then have "?n \<in> ix_index ` set (loaded_indexes s0) \<union>
        {(if loaded_indexes s0 \<noteq> [] then ix_index (last (loaded_indexes s0)) else 0) ..< 30}"
      unfolding init_models[OF fresh] by (auto simp: concatModelName_inj)
    then show False using above init_indexes[OF fresh(1)] by auto
  qed
  then have "concatModelName (chainId s) ?n \<notin> set (models s)" using later by simp
  moreover have "indexes s \<noteq> []" using above by auto
  ultimately show ?thesis using alloc
    by (simp add: create_def getModel_def Let_def)
qed

lemma find_range_None:
  "\<forall>index \<in> set ixs. ix_blockNumber index < b \<Longrightarrow> find_range b p ixs k = None"
  by (induction ixs arbitrary: p k) auto

theorem C10_create_unknown_model_witness:
  "length (indexes store_full) = 30
   \<and> fst (create (mkEvent ''x'' 30 0 0) store_full) = Inl (Error ''unknown model'')
   \<and> length (indexes (snd (create (mkEvent ''x'' 30 0 0) store_full))) = 31
   \<and> ix_index (last (indexes (snd (create (mkEvent ''x'' 30 0 0) store_full)))) = 30"
proof -
  let ?s0 = "newEvents 1 1 [] 1 Map.empty"
  have fresh: "\<not> initializing ?s0" "models ?s0 = []" by (simp_all add: newEvents_def)
  have c0: "chainId ?s0 = 1" by (simp add: newEvents_def)
  have later: "models store_full = models (init ?s0)" "chainId store_full = chainId ?s0"
    unfolding c0 by (simp_all add: store_full_def init_fresh_empty)
  have len: "length (indexes store_full) = 30" by (simp add: store_full_def)
  have a1: "find_range (ev_blockNumber (mkEvent ''x'' 30 0 0)) (- 1) (indexes store_full) 0 = None"
    by (rule find_range_None) (auto simp: store_full_def mkEvent_def)
  have a2: "\<not> ix_size (last (indexes store_full)) < maxSizeForSingleTable store_full"
    by (simp add: store_full_def last_map init_fresh_empty)
  have b1: "29 < length (indexes store_full)" using len by simp
  have b2: "\<forall>index \<in> set (indexes (init ?s0)). ix_index index < length (indexes store_full)"
    by (simp add: init_fresh_empty)
  show ?thesis
    using C10_create_unknown_model[OF fresh later a1 a2 b1 b2] len by simp
qed

subsection \<open>What a successful write changes\<close>

lemma find_range_bound:
  "find_range b p ixs k0 = Some k \<Longrightarrow> k0 \<le> k \<and> k < k0 + length ixs"
  by (induction b p ixs k0 rule: find_range.induct) (auto split: if_splits)

lemma model_create_Inr:
  assumes "model_create n e s = (Inr r, s')"
  obtains rows where "db_tables s n = Some rows" "\<not> violates_unique e rows"
    "s' = s\<lparr>db_tables := (db_tables s)(n \<mapsto> rows @ [e])\<rparr>" "r = e"
proof (cases "db_tables s n")
  case None
  then show thesis using assms by (simp add: model_create_def)
next
  case (Some rows)
  show thesis
  proof (cases "violates_unique e rows")
    case True
    then show thesis using assms Some by (simp add: model_create_def)
  next
    case False
    then have "s' = s\<lparr>db_tables := (db_tables s)(n \<mapsto> rows @ [e])\<rparr>" "r = e"
      using assms Some by (auto simp: model_create_def)
    then show thesis using that[OF Some False] by blast
  qed
qed

lemma insert_event_Inr:
  assumes "insert_event e k s = (Inr r, s')"
  obtains rows where
    "concatModelName (chainId s) (ix_index (indexes s ! k)) \<in> set (models s)"
    "db_tables s (concatModelName (chainId s) (ix_index (indexes s ! k))) = Some rows"
    "\<not> violates_unique e rows"
    "indexes s' = (indexes s)[k := (indexes s ! k)
        \<lparr>ix_blockNumber := max (ix_blockNumber (indexes s ! k)) (ev_blockNumber e),
         ix_size := ix_size (indexes s ! k) + 1\<rparr>]"
    "db_tables s' = (db_tables s)
        (concatModelName (chainId s) (ix_index (indexes s ! k)) \<mapsto> rows @ [e])"
    "models s' = models s" "chainId s' = chainId s" "r = e"
proof -
  let ?name = "concatModelName (chainId s) (ix_index (indexes s ! k))"
  have g: "getModel (indexes s ! k) s = Inr ?name" and m: "?name \<in> set (models s)"
    using assms by (auto simp: insert_event_def getModel_def Let_def split: if_splits)
  let ?s1 = "s\<lparr>indexes := (indexes s)[k := (indexes s ! k)
        \<lparr>ix_blockNumber := max (ix_blockNumber (indexes s ! k)) (ev_blockNumber e),
         ix_size := ix_size (indexes s ! k) + 1\<rparr>],
       db_EventIndex := save_index ((indexes s ! k)
        \<lparr>ix_blockNumber := max (ix_blockNumber (indexes s ! k)) (ev_blockNumber e),
         ix_size := ix_size (indexes s ! k) + 1\<rparr>) (db_EventIndex s)\<rparr>"
  have "model_create ?name e ?s1 = (Inr r, s')"
    using assms g by (simp add: insert_event_def Let_def)
  then obtain rows where "db_tables ?s1 ?name = Some rows" "\<not> violates_unique e rows"
    "s' = ?s1\<lparr>db_tables := (db_tables ?s1)(?name \<mapsto> rows @ [e])\<rparr>" "r = e"
    by (rule model_create_Inr)
  then show thesis using that[of rows] m by simp
qed

lemma create_Inr_cases:
  assumes "create e s = (Inr r, s')"
  obtains
    (found) k where "indexes s \<noteq> []"
      "find_range (ev_blockNumber e) (- 1) (indexes s) 0 = Some k"
      "insert_event e k s = (Inr r, s')"
  | (tail) "indexes s \<noteq> []"
      "find_range (ev_blockNumber e) (- 1) (indexes s) 0 = None"
      "ix_size (last (indexes s)) < maxSizeForSingleTable s"
      "insert_event e (length (indexes s) - 1) s = (Inr r, s')"
  | (new) rows where
      "indexes s = [] \<or> (find_range (ev_blockNumber e) (- 1) (indexes s) 0 = None
          \<and> \<not> ix_size (last (indexes s)) < maxSizeForSingleTable s)"
      "concatModelName (chainId s) (length (indexes s)) \<in> set (models s)"
      "db_tables s (concatModelName (chainId s) (length (indexes s))) = Some rows"
      "\<not> violates_unique e rows"
      "indexes s' = indexes s @
         [\<lparr>ix_id = db_nextId s, ix_chainId = ev_chainId e, ix_blockNumber = ev_blockNumber e,
           ix_index = length (indexes s), ix_size = 1\<rparr>]"
      "db_tables s' = (db_tables s)
         (concatModelName (chainId s) (length (indexes s)) \<mapsto> rows @ [e])"
      "models s' = models s" "chainId s' = chainId s" "r = e"
proof -
  let ?t = "(if indexes s \<noteq> []
            then (case find_range (ev_blockNumber e) (- 1) (indexes s) 0 of
                    Some k \<Rightarrow> Some k
                  | None \<Rightarrow> if ix_size (last (indexes s)) < maxSizeForSingleTable s
                            then Some (length (indexes s) - 1) else None)
            else None)"
  show thesis
  proof (cases ?t)
    case (Some k)
    then have ie: "insert_event e k s = (Inr r, s')" using assms by (simp add: create_def)
    have ne: "indexes s \<noteq> []" using Some by (auto split: if_splits)
    show thesis
    proof (cases "find_range (ev_blockNumber e) (- 1) (indexes s) 0")
      case None
      then show thesis using Some ne ie tail by (auto split: if_splits)
    next
      case (Some k')
      then show thesis using \<open>?t = Some k\<close> ne ie found by auto
    qed
  next
    case None
    let ?new = "\<lparr>ix_id = db_nextId s, ix_chainId = ev_chainId e, ix_blockNumber = ev_blockNumber e,
           ix_index = length (indexes s), ix_size = 1\<rparr>"
    let ?s1 = "s\<lparr>db_EventIndex := db_EventIndex s @ [?new], db_nextId := Suc (db_nextId s),
                 indexes := indexes s @ [?new]\<rparr>"
    let ?name = "concatModelName (chainId s) (length (indexes s))"
    have c: "create e s = (case getModel ?new ?s1 of Inl err \<Rightarrow> (Inl err, ?s1)
               | Inr name \<Rightarrow> model_create name e ?s1)"
      using None by (simp add: create_def Let_def)
    have m: "?name \<in> set (models s)" and mc: "model_create ?name e ?s1 = (Inr r, s')"
      using assms c by (auto simp: getModel_def Let_def split: if_splits)
    obtain rows where "db_tables ?s1 ?name = Some rows" "\<not> violates_unique e rows"
      "s' = ?s1\<lparr>db_tables := (db_tables ?s1)(?name \<mapsto> rows @ [e])\<rparr>" "r = e"
      using mc by (rule model_create_Inr)
    moreover have "indexes s = [] \<or> (find_range (ev_blockNumber e) (- 1) (indexes s) 0 = None
          \<and> \<not> ix_size (last (indexes s)) < maxSizeForSingleTable s)"
      using None by (auto split: if_splits option.splits)
    ultimately show thesis using new[of rows] m by simp
  qed
qed

lemma destroyOne_Inr:
  assumes "destroyOne c b s = (Inr n, s')"
  obtains (miss) "s' = s" "n = 0"
  | (hit) k rows where "k < length (indexes s)"
      "concatModelName (chainId s) (ix_index (indexes s ! k)) \<in> set (models s)"
      "db_tables s (concatModelName (chainId s) (ix_index (indexes s ! k))) = Some rows"
      "n = length (filter (matches c) rows)"
      "indexes s' = (indexes s)[k := (indexes s ! k)
          \<lparr>ix_size := ix_size (indexes s ! k) - int (length (filter (matches c) rows))\<rparr>]"
      "db_tables s' = (db_tables s)
          (concatModelName (chainId s) (ix_index (indexes s ! k)) \<mapsto>
             filter (\<lambda>r. \<not> matches c r) rows)"
      "models s' = models s" "chainId s' = chainId s"
proof -
  let ?bn = "(case where_blockNumber c of
              Some (BnEq n) \<Rightarrow> Some n
            | Some (BnRange gt gte lt lte) \<Rightarrow> None
            | None \<Rightarrow> b)"
  obtain blockNumber where bn: "?bn = Some blockNumber"
    using assms by (cases ?bn) (auto simp: destroyOne_def)
  show thesis
  proof (cases "find_range blockNumber (- 1) (indexes s) 0")
    case None
    then show thesis using assms bn miss by (simp add: destroyOne_def)
  next
    case (Some k)
    let ?name = "concatModelName (chainId s) (ix_index (indexes s ! k))"
    have kl: "k < length (indexes s)" using find_range_bound[OF Some] by simp
    have m: "?name \<in> set (models s)"
      using assms bn Some by (auto simp: destroyOne_def getModel_def Let_def split: if_splits)
    then have g: "getModel (indexes s ! k) s = Inr ?name" by (simp add: getModel_def)
    obtain rows where rows: "db_tables s ?name = Some rows"
      using assms bn Some g by (cases "db_tables s ?name") (auto simp: destroyOne_def)
    let ?d = "length (filter (matches c) rows)"
    show thesis
    proof (cases "0 < ?d")
      case True
      then have "n = ?d" "indexes s' = (indexes s)[k := (indexes s ! k)
          \<lparr>ix_size := ix_size (indexes s ! k) - int ?d\<rparr>]"
        "db_tables s' = (db_tables s)(?name \<mapsto> filter (\<lambda>r. \<not> matches c r) rows)"
        "models s' = models s" "chainId s' = chainId s"
        using assms bn Some g rows by (auto simp: destroyOne_def Let_def)
      then show thesis using hit[OF kl m rows] by blast
    next
      case False
      then have z: "?d = 0" by simp
      have "(indexes s ! k)\<lparr>ix_size := ix_size (indexes s ! k) - int ?d\<rparr> = indexes s ! k"
        unfolding z by simp
      then have u: "(indexes s)[k := (indexes s ! k)
          \<lparr>ix_size := ix_size (indexes s ! k) - int ?d\<rparr>] = indexes s"
        by (simp add: list_update_id)
      have "n = ?d" "indexes s' = indexes s"
        "db_tables s' = (db_tables s)(?name \<mapsto> filter (\<lambda>r. \<not> matches c r) rows)"
        "models s' = models s" "chainId s' = chainId s"
        using assms bn Some g rows False by (auto simp: destroyOne_def Let_def)
      then show thesis using hit[OF kl m rows] u by simp
    qed
  qed
qed

subsection \<open>Writes keep a store consistent\<close>

lemma concatModelName_in_image [simp]:
  "concatModelName c k \<in> concatModelName c ` A \<longleftrightarrow> k \<in> A"
  by (auto simp: concatModelName_inj)

lemma find_range_Some:
  "find_range b p ixs k0 = Some k \<Longrightarrow>
   \<exists>j < length ixs. k = k0 + j \<and> (if j = 0 then p else ix_blockNumber (ixs ! (j - 1))) < b
      \<and> b \<le> ix_blockNumber (ixs ! j)"
proof (induction b p ixs k0 rule: find_range.induct)
  case (1 b previous k)
  then show ?case by simp
next
  case (2 b previous index rest k0)
  show ?case
  proof (cases "previous < b \<and> b \<le> ix_blockNumber index")
    case True
    then have "k = k0" using "2.prems" by simp
    then show ?thesis using True by (intro exI[of _ 0]) simp
  next
    case False
    then have "find_range b (ix_blockNumber index) rest (Suc k0) = Some k"
      using "2.prems" by auto
    from "2.IH"[OF False this] obtain j where j: "j < length rest" "k = Suc k0 + j"
      "(if j = 0 then ix_blockNumber index else ix_blockNumber (rest ! (j - 1))) < b"
      "b \<le> ix_blockNumber (rest ! j)" by blast
    show ?thesis
      using j by (intro exI[of _ "Suc j"]) (cases j; simp)
  qed
qed

lemma find_range_None_less:
  "p < b \<Longrightarrow> find_range b p ixs k0 = None \<Longrightarrow> \<forall>index \<in> set ixs. ix_blockNumber index < b"
  by (induction b p ixs k0 rule: find_range.induct) (auto split: if_splits)

lemma sorted_update_last:
  fixes xs :: "int list"
  assumes "sorted xs" "Suc k = length xs" "xs ! k \<le> v"
  shows "sorted (xs[k := v])"
proof -
  have "xs = take k xs @ [xs ! k]"
    using assms(2) by (metis lessI take_Suc_conv_app_nth take_all order_refl)
  then have xs: "xs[k := v] = take k xs @ [v]"
    using assms(2) by (metis length_take list_update_length min.absorb2 nat_le_linear not_less_eq_eq
        append_Nil2 list_update_append1 lessI upd_conv_take_nth_drop Suc_n_not_le_n drop_all le_refl)
  have "\<forall>x \<in> set (take k xs). x \<le> xs ! k"
    using assms(1,2) by (metis \<open>xs = take k xs @ [xs ! k]\<close> sorted_append list.set_intros(1))
  then show ?thesis unfolding xs using assms(1,3)
    by (auto simp: sorted_append intro: sorted_wrt_take)
qed

lemma table_rows_update:
  assumes "db_tables s' = (db_tables s)(concatModelName (chainId s) k \<mapsto> rows)"
    "chainId s' = chainId s"
  shows "table_rows s' j = (if j = k then rows else table_rows s j)"
  using assms by (simp add: table_rows_def concatModelName_inj)


lemma not_violates_distinct:
  assumes "\<not> violates_unique e rows"
  shows "ev_id e \<notin> ev_id ` set rows"
    and "(ev_chainId e, ev_position e) \<notin> (\<lambda>e. (ev_chainId e, ev_position e)) ` set rows"
  using assms by (auto simp: violates_unique_def ev_position_def)

lemma insert_consistent:
  assumes c: "consistent s" and k: "k < length (indexes s)"
    and ix: "indexes s' = (indexes s)[k := (indexes s ! k)
        \<lparr>ix_blockNumber := max (ix_blockNumber (indexes s ! k)) (ev_blockNumber e),
         ix_size := ix_size (indexes s ! k) + 1\<rparr>]"
    and tb: "db_tables s' = (db_tables s)(concatModelName (chainId s) k \<mapsto> table_rows s k @ [e])"
    and same: "models s' = models s" "chainId s' = chainId s"
    and uq: "\<not> violates_unique e (table_rows s k)"
    and lo: "previous_max s k < ev_blockNumber e"
    and hi: "ev_blockNumber e \<le> ix_blockNumber (indexes s ! k) \<or> Suc k = length (indexes s)"
  shows "consistent s'"
proof -
  let ?n = "length (indexes s)"
  have L: "length (indexes s') = ?n" using ix by simp
  have T: "\<And>j. table_rows s' j = (if j = k then table_rows s k @ [e] else table_rows s j)"
    using table_rows_update[OF tb same(2)] by simp
  have N: "\<And>j. j < ?n \<Longrightarrow> j \<noteq> k \<Longrightarrow> indexes s' ! j = indexes s ! j"
    using ix by simp
  have K: "ix_index (indexes s' ! k) = ix_index (indexes s ! k)"
    "ix_size (indexes s' ! k) = ix_size (indexes s ! k) + 1"
    "ix_blockNumber (indexes s' ! k) = max (ix_blockNumber (indexes s ! k)) (ev_blockNumber e)"
    using ix k by simp_all
  have B: "\<And>j. j < ?n \<Longrightarrow> Suc j < ?n \<Longrightarrow> ix_blockNumber (indexes s' ! j) = ix_blockNumber (indexes s ! j)"
  proof -
    fix j assume j: "j < ?n" "Suc j < ?n"
    show "ix_blockNumber (indexes s' ! j) = ix_blockNumber (indexes s ! j)"
    proof (cases "j = k")
      case True
      then have "ev_blockNumber e \<le> ix_blockNumber (indexes s ! k)" using hi j by auto
      then show ?thesis using True K by simp
    next
      case False
      then show ?thesis using N j by simp
    qed
  qed
  have P: "\<And>j. j < ?n \<Longrightarrow> previous_max s' j = previous_max s j"
  proof -
    fix j assume j: "j < ?n"
    show "previous_max s' j = previous_max s j"
    proof (cases j)
      case 0 then show ?thesis by (simp add: previous_max_def)
    next
      case (Suc i)
      then have "i < ?n" "Suc i < ?n" using j by simp_all
      from B[OF this] show ?thesis using Suc by (simp add: previous_max_def)
    qed
  qed
  from c have io: "indexed_ok s" and so: "sizes_ok s" and ro: "ranges_ok s"
    and uo: "unique_ok s" and sp: "spare_ok s" by (simp_all add: consistent_def)
  have 1: "indexed_ok s'"
    unfolding indexed_ok_def L same
  proof (intro allI impI)
    fix j assume j: "j < ?n"
    have "ix_index (indexes s' ! j) = ix_index (indexes s ! j)"
      using N[OF j] K by (cases "j = k") simp_all
    then show "ix_index (indexes s' ! j) = j \<and> concatModelName (chainId s) j \<in> set (models s)
        \<and> db_tables s' (concatModelName (chainId s) j) \<noteq> None"
      using io j by (simp add: indexed_ok_def tb)
  qed
  have 2: "sizes_ok s'"
    unfolding sizes_ok_def L
  proof (intro allI impI)
    fix j assume j: "j < ?n"
    show "ix_size (indexes s' ! j) = int (length (table_rows s' j))"
      using so j N[OF j] K by (cases "j = k") (simp_all add: sizes_ok_def T)
  qed
  have 3: "ranges_ok s'"
    unfolding ranges_ok_def L
  proof (intro conjI allI impI ballI)
    fix j e' assume j: "j < ?n" and e': "e' \<in> set (table_rows s' j)"
    show "previous_max s' j < ev_blockNumber e'"
    proof (cases "j = k")
      case True
      then show ?thesis using e' T ro j lo P[OF j] by (auto simp: ranges_ok_def)
    next
      case False
      then show ?thesis using e' T ro j P[OF j] by (auto simp: ranges_ok_def)
    qed
    show "ev_blockNumber e' \<le> ix_blockNumber (indexes s' ! j)"
    proof (cases "j = k")
      case True
      then consider "e' = e" | "e' \<in> set (table_rows s k)" using e' T by auto
      then show ?thesis
      proof cases
        case 1 then show ?thesis using True K by simp
      next
        case 2
        then have "ev_blockNumber e' \<le> ix_blockNumber (indexes s ! k)"
          using ro k by (simp add: ranges_ok_def)
        then show ?thesis using True K by simp
      qed
    next
      case False
      then show ?thesis using e' T ro j N[OF j] by (auto simp: ranges_ok_def)
    qed
  next
    let ?xs = "map ix_blockNumber (indexes s)"
    have m: "map ix_blockNumber (indexes s') = ?xs[k := max (?xs ! k) (ev_blockNumber e)]"
      using ix k by (simp add: map_update)
    have sx: "sorted ?xs" using ro by (simp add: ranges_ok_def)
    show "sorted (map ix_blockNumber (indexes s'))"
    proof (cases "ev_blockNumber e \<le> ix_blockNumber (indexes s ! k)")
      case True
      then have "max (?xs ! k) (ev_blockNumber e) = ?xs ! k" using k by simp
      then show ?thesis using m sx by (simp add: list_update_id)
    next
      case False
      then have "Suc k = length ?xs" using hi by simp
      from sorted_update_last[OF sx this, of "max (?xs ! k) (ev_blockNumber e)"]
      show ?thesis using m by simp
    qed
  qed
  have 4: "unique_ok s'"
    unfolding unique_ok_def L
  proof (intro allI impI)
    fix j assume j: "j < ?n"
    show "distinct (map ev_id (table_rows s' j)) \<and>
          distinct (map (\<lambda>e. (ev_chainId e, ev_position e)) (table_rows s' j))"
      using uo j not_violates_distinct[OF uq] by (cases "j = k") (simp_all add: unique_ok_def T)
  qed
  have 5: "spare_ok s'"
    unfolding spare_ok_def L same
  proof (intro ballI impI)
    fix name assume n: "name \<in> set (models s)"
      "name \<notin> concatModelName (chainId s) ` {0..<?n}"
    then have "name \<noteq> concatModelName (chainId s) k" using k by auto
    then show "db_tables s' name = Some []" using sp n by (simp add: spare_ok_def tb)
  qed
  show ?thesis using 1 2 3 4 5 by (simp add: consistent_def)
qed

lemma allocate_consistent:
  assumes c: "consistent s"
    and ix: "indexes s' = indexes s @
         [\<lparr>ix_id = i, ix_chainId = ch, ix_blockNumber = ev_blockNumber e,
           ix_index = length (indexes s), ix_size = 1\<rparr>]"
    and m: "concatModelName (chainId s) (length (indexes s)) \<in> set (models s)"
    and tb: "db_tables s' = (db_tables s)
         (concatModelName (chainId s) (length (indexes s)) \<mapsto>
            table_rows s (length (indexes s)) @ [e])"
    and same: "models s' = models s" "chainId s' = chainId s"
    and lo: "0 \<le> ev_blockNumber e"
      "\<forall>index \<in> set (indexes s). ix_blockNumber index < ev_blockNumber e"
  shows "consistent s'"
proof -
  let ?n = "length (indexes s)"
  from c have io: "indexed_ok s" and so: "sizes_ok s" and ro: "ranges_ok s"
    and uo: "unique_ok s" and sp: "spare_ok s" by (simp_all add: consistent_def)
  have "concatModelName (chainId s) ?n \<notin> concatModelName (chainId s) ` {0..<?n}" by simp
  then have "db_tables s (concatModelName (chainId s) ?n) = Some []"
    using sp m by (simp add: spare_ok_def)
  then have empty: "table_rows s ?n = []" by (simp add: table_rows_def)
  have L: "length (indexes s') = Suc ?n" using ix by simp
  have T: "\<And>j. table_rows s' j = (if j = ?n then [e] else table_rows s j)"
    using table_rows_update[OF tb same(2)] empty by simp
  have N: "\<And>j. j < ?n \<Longrightarrow> indexes s' ! j = indexes s ! j"
    using ix by (simp add: nth_append)
  have K: "indexes s' ! ?n = \<lparr>ix_id = i, ix_chainId = ch, ix_blockNumber = ev_blockNumber e,
           ix_index = ?n, ix_size = 1\<rparr>"
    using ix by simp
  have P: "\<And>j. j < ?n \<Longrightarrow> previous_max s' j = previous_max s j"
    using N by (simp add: previous_max_def)
  have Pn: "previous_max s' ?n < ev_blockNumber e"
  proof (cases ?n)
    case 0 then show ?thesis using lo by (simp add: previous_max_def)
  next
    case (Suc j)
    then have "indexes s ! j \<in> set (indexes s)" by simp
    then show ?thesis using lo Suc N[of j] by (simp add: previous_max_def)
  qed
  have 1: "indexed_ok s'"
    unfolding indexed_ok_def L same
  proof (intro allI impI)
    fix j assume j: "j < Suc ?n"
    show "ix_index (indexes s' ! j) = j \<and> concatModelName (chainId s) j \<in> set (models s)
        \<and> db_tables s' (concatModelName (chainId s) j) \<noteq> None"
    proof (cases "j = ?n")
      case True then show ?thesis using K m tb by simp
    next
      case False
      then have "j < ?n" using j by simp
      then show ?thesis using io N[of j] by (simp add: indexed_ok_def tb)
    qed
  qed
  have 2: "sizes_ok s'"
    unfolding sizes_ok_def L
  proof (intro allI impI)
    fix j assume j: "j < Suc ?n"
    show "ix_size (indexes s' ! j) = int (length (table_rows s' j))"
    proof (cases "j = ?n")
      case True then show ?thesis using K T by simp
    next
      case False
      then have "j < ?n" using j by simp
      then show ?thesis using so N[of j] T False by (simp add: sizes_ok_def)
    qed
  qed
  have 3: "ranges_ok s'"
    unfolding ranges_ok_def L
  proof (intro conjI allI impI ballI)
    fix j e' assume j: "j < Suc ?n" and e': "e' \<in> set (table_rows s' j)"
    show "previous_max s' j < ev_blockNumber e'"
    proof (cases "j = ?n")
      case True then show ?thesis using e' T Pn by simp
    next
      case False
      then have "j < ?n" using j by simp
      then show ?thesis using e' T False ro P[of j] by (simp add: ranges_ok_def)
    qed
    show "ev_blockNumber e' \<le> ix_blockNumber (indexes s' ! j)"
    proof (cases "j = ?n")
      case True then show ?thesis using e' T K by simp
    next
      case False
      then have "j < ?n" using j by simp
      then show ?thesis using e' T False ro N[of j] by (simp add: ranges_ok_def)
    qed
  next
    have "sorted (map ix_blockNumber (indexes s))" using ro by (simp add: ranges_ok_def)
    then show "sorted (map ix_blockNumber (indexes s'))"
      using lo(2) by (auto simp: ix sorted_append less_imp_le)
  qed
  have 4: "unique_ok s'"
    unfolding unique_ok_def L
  proof (intro allI impI)
    fix j assume j: "j < Suc ?n"
    show "distinct (map ev_id (table_rows s' j)) \<and>
          distinct (map (\<lambda>e. (ev_chainId e, ev_position e)) (table_rows s' j))"
    proof (cases "j = ?n")
      case True then show ?thesis using T by simp
    next
      case False
      then have "j < ?n" using j by simp
      then show ?thesis using uo T False by (simp add: unique_ok_def)
    qed
  qed
  have 5: "spare_ok s'"
    unfolding spare_ok_def L same
  proof (intro ballI impI)
    fix name assume n: "name \<in> set (models s)"
      "name \<notin> concatModelName (chainId s) ` {0..<Suc ?n}"
    then have "name \<noteq> concatModelName (chainId s) ?n"
      and "name \<notin> concatModelName (chainId s) ` {0..<?n}" by auto
    then show "db_tables s' name = Some []" using sp n by (simp add: spare_ok_def tb)
  qed
  show ?thesis using 1 2 3 4 5 by (simp add: consistent_def)
qed

lemma destroy_consistent:
  assumes c: "consistent s" and k: "k < length (indexes s)"
    and ix: "indexes s' = (indexes s)[k := (indexes s ! k)
          \<lparr>ix_size := ix_size (indexes s ! k) - int (length (filter P (table_rows s k)))\<rparr>]"
    and tb: "db_tables s' = (db_tables s)
          (concatModelName (chainId s) k \<mapsto> filter (\<lambda>r. \<not> P r) (table_rows s k))"
    and same: "models s' = models s" "chainId s' = chainId s"
  shows "consistent s'"
proof -
  let ?n = "length (indexes s)"
  from c have io: "indexed_ok s" and so: "sizes_ok s" and ro: "ranges_ok s"
    and uo: "unique_ok s" and sp: "spare_ok s" by (simp_all add: consistent_def)
  have L: "length (indexes s') = ?n" using ix by simp
  have T: "\<And>j. table_rows s' j =
      (if j = k then filter (\<lambda>r. \<not> P r) (table_rows s k) else table_rows s j)"
    using table_rows_update[OF tb same(2)] by simp
  have Ts: "\<And>j. set (table_rows s' j) \<subseteq> set (table_rows s j)" using T by auto
  have I: "\<And>j. j < ?n \<Longrightarrow> ix_index (indexes s' ! j) = ix_index (indexes s ! j)"
    "\<And>j. j < ?n \<Longrightarrow> ix_blockNumber (indexes s' ! j) = ix_blockNumber (indexes s ! j)"
    using ix k by (auto simp: nth_list_update)
  have M: "map ix_blockNumber (indexes s') = map ix_blockNumber (indexes s)"
    using I(2) L by (intro nth_equalityI) simp_all
  have P: "\<And>j. j < ?n \<Longrightarrow> previous_max s' j = previous_max s j"
    using I(2) by (simp add: previous_max_def)
  have 1: "indexed_ok s'"
    using io I(1) by (simp add: indexed_ok_def L same tb)
  have len: "int (length (table_rows s k)) - int (length (filter P (table_rows s k)))
      = int (length (filter (\<lambda>r. \<not> P r) (table_rows s k)))"
    using sum_length_filter_compl[of P "table_rows s k"] by simp
  have 2: "sizes_ok s'"
    unfolding sizes_ok_def L
  proof (intro allI impI)
    fix j assume j: "j < ?n"
    show "ix_size (indexes s' ! j) = int (length (table_rows s' j))"
      using so j ix len by (cases "j = k") (simp_all add: sizes_ok_def T)
  qed
  have 3: "ranges_ok s'"
    unfolding ranges_ok_def L M
  proof (intro conjI allI impI ballI)
    fix j e' assume j: "j < ?n" and e': "e' \<in> set (table_rows s' j)"
    then have "e' \<in> set (table_rows s j)" using Ts by blast
    then show "previous_max s' j < ev_blockNumber e'"
      "ev_blockNumber e' \<le> ix_blockNumber (indexes s' ! j)"
      using ro j P[OF j] I(2)[OF j] by (simp_all add: ranges_ok_def)
  next
    show "sorted (map ix_blockNumber (indexes s))" using ro by (simp add: ranges_ok_def)
  qed
  have 4: "unique_ok s'"
    unfolding unique_ok_def L
  proof (intro allI impI)
    fix j assume j: "j < ?n"
    show "distinct (map ev_id (table_rows s' j)) \<and>
          distinct (map (\<lambda>e. (ev_chainId e, ev_position e)) (table_rows s' j))"
      using uo j by (cases "j = k") (simp_all add: unique_ok_def T distinct_map_filter)
  qed
  have 5: "spare_ok s'"
    unfolding spare_ok_def L same
  proof (intro ballI impI)
    fix name assume n: "name \<in> set (models s)"
      "name \<notin> concatModelName (chainId s) ` {0..<?n}"
    then have "name \<noteq> concatModelName (chainId s) k" using k by auto
    then show "db_tables s' name = Some []" using sp n by (simp add: spare_ok_def tb)
  qed
  show ?thesis using 1 2 3 4 5 by (simp add: consistent_def)
qed

lemma consistent_index: "consistent s \<Longrightarrow> k < length (indexes s) \<Longrightarrow> ix_index (indexes s ! k) = k"
  by (simp add: consistent_def indexed_ok_def)

lemma create_consistent:
  assumes c: "consistent s" and b: "0 \<le> ev_blockNumber e" and ok: "create e s = (Inr r, s')"
  shows "consistent s'"
  using ok
proof (cases rule: create_Inr_cases)
  case (found k)
  from find_range_Some[OF found(2)] have k: "k < length (indexes s)"
    and lo: "previous_max s k < ev_blockNumber e"
    and hi: "ev_blockNumber e \<le> ix_blockNumber (indexes s ! k)"
    by (auto simp: previous_max_def)
  from found(3) show ?thesis
  proof (rule insert_event_Inr)
    fix rows
    assume a: "db_tables s (concatModelName (chainId s) (ix_index (indexes s ! k))) = Some rows"
      "\<not> violates_unique e rows"
      "indexes s' = (indexes s)[k := (indexes s ! k)
        \<lparr>ix_blockNumber := max (ix_blockNumber (indexes s ! k)) (ev_blockNumber e),
         ix_size := ix_size (indexes s ! k) + 1\<rparr>]"
      "db_tables s' = (db_tables s)
        (concatModelName (chainId s) (ix_index (indexes s ! k)) \<mapsto> rows @ [e])"
      "models s' = models s" "chainId s' = chainId s"
    have r: "table_rows s k = rows" using a(1) consistent_index[OF c k] by (simp add: table_rows_def)
    show ?thesis
      using insert_consistent[OF c k a(3) _ a(5,6) _ lo] a(2,4) r hi consistent_index[OF c k]
      by simp
  qed
next
  case tail
  let ?k = "length (indexes s) - 1"
  have k: "?k < length (indexes s)" and sk: "Suc ?k = length (indexes s)"
    using tail(1) by simp_all
  have less: "\<forall>index \<in> set (indexes s). ix_blockNumber index < ev_blockNumber e"
    using find_range_None_less[OF _ tail(2)] b by simp
  have lo: "previous_max s ?k < ev_blockNumber e"
  proof (cases ?k)
    case 0 then show ?thesis using b by (simp add: previous_max_def)
  next
    case (Suc j)
    then have "indexes s ! j \<in> set (indexes s)" using k by simp
    then show ?thesis using less Suc by (simp add: previous_max_def)
  qed
  from tail(4) show ?thesis
  proof (rule insert_event_Inr)
    fix rows
    assume a: "db_tables s (concatModelName (chainId s) (ix_index (indexes s ! ?k))) = Some rows"
      "\<not> violates_unique e rows"
      "indexes s' = (indexes s)[?k := (indexes s ! ?k)
        \<lparr>ix_blockNumber := max (ix_blockNumber (indexes s ! ?k)) (ev_blockNumber e),
         ix_size := ix_size (indexes s ! ?k) + 1\<rparr>]"
      "db_tables s' = (db_tables s)
        (concatModelName (chainId s) (ix_index (indexes s ! ?k)) \<mapsto> rows @ [e])"
      "models s' = models s" "chainId s' = chainId s"
    have r: "table_rows s ?k = rows" using a(1) consistent_index[OF c k] by (simp add: table_rows_def)
    show ?thesis
      using insert_consistent[OF c k a(3) _ a(5,6) _ lo] a(2,4) r sk consistent_index[OF c k]
      by simp
  qed
next
  case (new rows)
  have less: "\<forall>index \<in> set (indexes s). ix_blockNumber index < ev_blockNumber e"
    using new(1) find_range_None_less[of "- 1" "ev_blockNumber e" "indexes s" 0] b by auto
  have r: "table_rows s (length (indexes s)) = rows" using new(3) by (simp add: table_rows_def)
  show ?thesis
    using allocate_consistent[OF c new(5,2) _ new(7,8) b less] new(6) r by simp
qed

lemma destroyOne_consistent:
  assumes c: "consistent s" and ok: "destroyOne cond b s = (Inr n, s')"
  shows "consistent s'"
  using ok
proof (cases rule: destroyOne_Inr)
  case miss
  then show ?thesis using c by simp
next
  case (hit k rows)
  have r: "table_rows s k = rows" using hit(3) consistent_index[OF c hit(1)] by (simp add: table_rows_def)
  show ?thesis
    using destroy_consistent[OF c hit(1), of s' "matches cond"] hit(5,6,7,8) r
      consistent_index[OF c hit(1)] by simp
qed

lemma exec_consistent:
  "consistent s \<Longrightarrow> \<forall>op \<in> set ops. op_blockNumber_ok op \<Longrightarrow> exec ops s = Some s'
   \<Longrightarrow> consistent s'"
proof (induction ops arbitrary: s)
  case Nil then show ?case by simp
next
  case (Cons op ops)
  show ?case
  proof (cases op)
    case (Create e)
    obtain r s1 where c: "create e s = (Inr r, s1)" and e: "exec ops s1 = Some s'"
      using Cons.prems(3) Create by (auto split: prod.splits sum.splits)
    have "consistent s1" using create_consistent[OF Cons.prems(1) _ c] Cons.prems(2) Create by simp
    then show ?thesis using Cons.IH[OF _ _ e] Cons.prems(2) by simp
  next
    case (DestroyOne cond b)
    obtain n s1 where c: "destroyOne cond b s = (Inr n, s1)" and e: "exec ops s1 = Some s'"
      using Cons.prems(3) DestroyOne by (auto split: prod.splits sum.splits)
    have "consistent s1" using destroyOne_consistent[OF Cons.prems(1) c] .
    then show ?thesis using Cons.IH[OF _ _ e] Cons.prems(2) by simp
  qed
qed

lemma consistent_init_fresh: "consistent (init (newEvents c n [] i Map.empty))"
  unfolding init_fresh_empty
  by (simp add: consistent_def indexed_ok_def sizes_ok_def ranges_ok_def unique_ok_def
      spare_ok_def)

lemma example_run:
  "\<exists>s'. exec example_ops store_new = Some s'
     \<and> indexes s' = [\<lparr>ix_id = 1, ix_chainId = 1, ix_blockNumber = 9, ix_index = 0, ix_size = 1\<rparr>,
                     \<lparr>ix_id = 2, ix_chainId = 1, ix_blockNumber = 12, ix_index = 1, ix_size = 1\<rparr>]
     \<and> table_rows s' 0 = [mkEvent ''a'' 5 0 0]
     \<and> table_rows s' 1 = [mkEvent ''c'' 12 0 0]"
  unfolding store_new_def init_fresh_empty example_ops_def
  by (simp add: create_def insert_event_def getModel_def model_create_def violates_unique_def
      destroyOne_def byId_def matches_def table_rows_def save_index_def Let_def
      concatModelName_inj mkEvent_def)

lemma example_creates_run:
  "\<exists>s'. exec (take 3 example_ops) store_new = Some s'
     \<and> length (indexes s') = 2
     \<and> ix_blockNumber (indexes s' ! 0) = 9
     \<and> table_rows s' 0 = [mkEvent ''a'' 5 0 0, mkEvent ''b'' 9 0 0]"
  unfolding store_new_def init_fresh_empty example_ops_def
  by (simp add: create_def insert_event_def getModel_def model_create_def violates_unique_def
      table_rows_def save_index_def Let_def concatModelName_inj mkEvent_def)





lemma insert_max_attained:
  assumes a: "max_attained s" and k: "k < length (indexes s)"
    and ix: "indexes s' = (indexes s)[k := (indexes s ! k)
        \<lparr>ix_blockNumber := max (ix_blockNumber (indexes s ! k)) (ev_blockNumber e),
         ix_size := ix_size (indexes s ! k) + 1\<rparr>]"
    and tb: "db_tables s' = (db_tables s)(concatModelName (chainId s) k \<mapsto> table_rows s k @ [e])"
    and same: "chainId s' = chainId s"
  shows "max_attained s'"
  unfolding max_attained_def
proof (intro allI impI)
  fix j assume "j < length (indexes s')"
  then have j: "j < length (indexes s)" using ix by simp
  have T: "table_rows s' j = (if j = k then table_rows s k @ [e] else table_rows s j)"
    using table_rows_update[OF tb same] by simp
  obtain e0 where e0: "e0 \<in> set (table_rows s j)"
    "ev_blockNumber e0 = ix_blockNumber (indexes s ! j)"
    using a j by (auto simp: max_attained_def)
  show "\<exists>e \<in> set (table_rows s' j). ev_blockNumber e = ix_blockNumber (indexes s' ! j)"
  proof (cases "j = k")
    case False
    then show ?thesis using e0 T ix j by auto
  next
    case True
    show ?thesis
    proof (cases "ev_blockNumber e \<le> ix_blockNumber (indexes s ! k)")
      case True
      then have "ix_blockNumber (indexes s' ! k) = ev_blockNumber e0"
        using ix k e0 \<open>j = k\<close> by simp
      then show ?thesis using e0 T \<open>j = k\<close> by auto
    next
      case False
      then have "ix_blockNumber (indexes s' ! k) = ev_blockNumber e" using ix k by simp
      then show ?thesis using T \<open>j = k\<close> by auto
    qed
  qed
qed

lemma create_max_attained:
  assumes c: "consistent s" and a: "max_attained s" and ok: "create e s = (Inr r, s')"
  shows "max_attained s'"
  using ok
proof (cases rule: create_Inr_cases)
  case (found k)
  have k: "k < length (indexes s)" using find_range_bound[OF found(2)] by simp
  from found(3) show ?thesis
  proof (rule insert_event_Inr)
    fix rows
    assume h: "db_tables s (concatModelName (chainId s) (ix_index (indexes s ! k))) = Some rows"
      "indexes s' = (indexes s)[k := (indexes s ! k)
        \<lparr>ix_blockNumber := max (ix_blockNumber (indexes s ! k)) (ev_blockNumber e),
         ix_size := ix_size (indexes s ! k) + 1\<rparr>]"
      "db_tables s' = (db_tables s)
        (concatModelName (chainId s) (ix_index (indexes s ! k)) \<mapsto> rows @ [e])"
      "chainId s' = chainId s"
    have r: "table_rows s k = rows" using h(1) consistent_index[OF c k] by (simp add: table_rows_def)
    show ?thesis
      using insert_max_attained[OF a k h(2) _ h(4)] h(3) r consistent_index[OF c k] by simp
  qed
next
  case tail
  let ?k = "length (indexes s) - 1"
  have k: "?k < length (indexes s)" using tail(1) by simp
  from tail(4) show ?thesis
  proof (rule insert_event_Inr)
    fix rows
    assume h: "db_tables s (concatModelName (chainId s) (ix_index (indexes s ! ?k))) = Some rows"
      "indexes s' = (indexes s)[?k := (indexes s ! ?k)
        \<lparr>ix_blockNumber := max (ix_blockNumber (indexes s ! ?k)) (ev_blockNumber e),
         ix_size := ix_size (indexes s ! ?k) + 1\<rparr>]"
      "db_tables s' = (db_tables s)
        (concatModelName (chainId s) (ix_index (indexes s ! ?k)) \<mapsto> rows @ [e])"
      "chainId s' = chainId s"
    have r: "table_rows s ?k = rows" using h(1) consistent_index[OF c k] by (simp add: table_rows_def)
    show ?thesis
      using insert_max_attained[OF a k h(2) _ h(4)] h(3) r consistent_index[OF c k] by simp
  qed
next
  case (new rows)
  let ?n = "length (indexes s)"
  have T: "\<And>j. table_rows s' j = (if j = ?n then rows @ [e] else table_rows s j)"
    using table_rows_update[OF new(6,8)] by simp
  show ?thesis
    unfolding max_attained_def
  proof (intro allI impI)
    fix j assume "j < length (indexes s')"
    then have j: "j < Suc ?n" using new(5) by simp
    show "\<exists>e \<in> set (table_rows s' j). ev_blockNumber e = ix_blockNumber (indexes s' ! j)"
    proof (cases "j = ?n")
      case True then show ?thesis using T new(5) by auto
    next
      case False
      then have "j < ?n" using j by simp
      then show ?thesis using a T False new(5) by (auto simp: max_attained_def nth_append)
    qed
  qed
qed

lemma exec_creates_max_attained:
  "consistent s \<Longrightarrow> max_attained s \<Longrightarrow> \<forall>op \<in> set ops. op_blockNumber_ok op \<and> is_Create op
   \<Longrightarrow> exec ops s = Some s' \<Longrightarrow> max_attained s'"
proof (induction ops arbitrary: s)
  case Nil then show ?case by simp
next
  case (Cons op ops)
  obtain e where op: "op = Create e" using Cons.prems(3) by (cases op) auto
  obtain r s1 where c: "create e s = (Inr r, s1)" and e: "exec ops s1 = Some s'"
    using Cons.prems(4) op by (auto split: prod.splits sum.splits)
  have "0 \<le> ev_blockNumber e" using Cons.prems(3) op by simp
  from create_consistent[OF Cons.prems(1) this c] create_max_attained[OF Cons.prems(1,2) c]
  show ?case using Cons.IH[OF _ _ _ e] Cons.prems(3) by simp
qed

text \<open>
  C3, as stated: after any sequence of \<open>create\<close> and \<open>destroyOne\<close> the recorded
  \<open>blockNumber\<close> of a sub-table is the maximum block number of its rows. In the example
  run the event at block 9 is removed from sub-table 0: its only row left is at block 5,
  while its index row still says 9.
\<close>

theorem C3_counterexample:
  "exec example_ops store_new \<noteq> None
   \<and> map ev_blockNumber (table_rows (the (exec example_ops store_new)) 0) = [5]
   \<and> ix_blockNumber (indexes (the (exec example_ops store_new)) ! 0) = 9"
proof -
  obtain s' where "exec example_ops store_new = Some s'"
    "indexes s' = [\<lparr>ix_id = 1, ix_chainId = 1, ix_blockNumber = 9, ix_index = 0, ix_size = 1\<rparr>,
                     \<lparr>ix_id = 2, ix_chainId = 1, ix_blockNumber = 12, ix_index = 1, ix_size = 1\<rparr>]"
    "table_rows s' 0 = [mkEvent ''a'' 5 0 0]"
    using example_run by blast
  then show ?thesis by (simp add: mkEvent_def)
qed

text \<open>
  C3, amended: after any sequence of successful \<open>create\<close> and \<open>destroyOne\<close> calls on a
  consistent store, \<open>size\<close> of every sub-table is the number of its rows and its
  \<open>blockNumber\<close> is an upper bound of the block numbers of its rows; it is their maximum
  as long as only \<open>create\<close> is called (\<open>destroyOne\<close> never lowers it).
\<close>

theorem C3_size_and_block_bound:
  assumes "consistent s" and "\<forall>op \<in> set ops. op_blockNumber_ok op"
    and "exec ops s = Some s'"
  shows "(\<forall>k < length (indexes s').
            ix_size (indexes s' ! k) = int (length (table_rows s' k)) \<and>
            (\<forall>e \<in> set (table_rows s' k).
               ev_blockNumber e \<le> ix_blockNumber (indexes s' ! k)))
       \<and> (max_attained s \<and> (\<forall>op \<in> set ops. is_Create op) \<longrightarrow>
            (\<forall>k < length (indexes s').
               ix_blockNumber (indexes s' ! k) = Max (ev_blockNumber ` set (table_rows s' k))))"
proof -
  have c: "consistent s'" using exec_consistent[OF assms] .
  have 1: "\<forall>k < length (indexes s').
            ix_size (indexes s' ! k) = int (length (table_rows s' k)) \<and>
            (\<forall>e \<in> set (table_rows s' k).
               ev_blockNumber e \<le> ix_blockNumber (indexes s' ! k))"
    using c by (simp add: consistent_def sizes_ok_def ranges_ok_def)
  have 2: "\<forall>k < length (indexes s').
               ix_blockNumber (indexes s' ! k) = Max (ev_blockNumber ` set (table_rows s' k))"
    if m: "max_attained s" and o: "\<forall>op \<in> set ops. is_Create op"
  proof (intro allI impI)
    fix k assume k: "k < length (indexes s')"
    have "max_attained s'"
      using exec_creates_max_attained[OF assms(1) m _ assms(3)] assms(2) o by simp
    then obtain e where e: "e \<in> set (table_rows s' k)"
      "ev_blockNumber e = ix_blockNumber (indexes s' ! k)"
      using k by (auto simp: max_attained_def)
    show "ix_blockNumber (indexes s' ! k) = Max (ev_blockNumber ` set (table_rows s' k))"
    proof (rule sym, rule Max_eqI)
      show "finite (ev_blockNumber ` set (table_rows s' k))" by simp
      show "\<And>y. y \<in> ev_blockNumber ` set (table_rows s' k) \<Longrightarrow> y \<le> ix_blockNumber (indexes s' ! k)"
        using 1 k by auto
      show "ix_blockNumber (indexes s' ! k) \<in> ev_blockNumber ` set (table_rows s' k)"
        using e by force
    qed
  qed
  show ?thesis using 1 2 by blast
qed

theorem C3_size_and_block_bound_witness:
  "consistent store_new \<and> list_all op_blockNumber_ok example_ops
   \<and> exec example_ops store_new \<noteq> None
   \<and> length (indexes (the (exec example_ops store_new))) = 2
   \<and> ix_size (indexes (the (exec example_ops store_new)) ! 0) = 1
   \<and> length (table_rows (the (exec example_ops store_new)) 0) = 1
   \<and> ev_blockNumber (mkEvent ''a'' 5 0 0)
        \<le> ix_blockNumber (indexes (the (exec example_ops store_new)) ! 0)
   \<and> max_attained store_new \<and> list_all is_Create (take 3 example_ops)
   \<and> exec (take 3 example_ops) store_new \<noteq> None
   \<and> Max (ev_blockNumber ` set (table_rows (the (exec (take 3 example_ops) store_new)) 0)) = 9"
proof -
  obtain s' where e: "exec example_ops store_new = Some s'"
    and i: "indexes s' = [\<lparr>ix_id = 1, ix_chainId = 1, ix_blockNumber = 9, ix_index = 0, ix_size = 1\<rparr>,
                     \<lparr>ix_id = 2, ix_chainId = 1, ix_blockNumber = 12, ix_index = 1, ix_size = 1\<rparr>]"
    and t: "table_rows s' 0 = [mkEvent ''a'' 5 0 0]"
    using example_run by blast
  obtain s3 where e3: "exec (take 3 example_ops) store_new = Some s3"
    and l3: "length (indexes s3) = 2" and b3: "ix_blockNumber (indexes s3 ! 0) = 9"
    using example_creates_run by blast
  have c: "consistent store_new" unfolding store_new_def by (rule consistent_init_fresh)
  have o: "\<forall>op \<in> set example_ops. op_blockNumber_ok op"
    by (simp add: example_ops_def mkEvent_def)
  have o3: "\<forall>op \<in> set (take 3 example_ops). op_blockNumber_ok op"
    "\<forall>op \<in> set (take 3 example_ops). is_Create op"
    by (simp_all add: example_ops_def mkEvent_def)
  have m: "max_attained store_new"
    unfolding store_new_def init_fresh_empty by (simp add: max_attained_def)
  have l: "length (indexes s') = 2" using i by simp
  from C3_size_and_block_bound[OF c o e]
  have "ix_size (indexes s' ! 0) = int (length (table_rows s' 0))"
    and "\<forall>e \<in> set (table_rows s' 0). ev_blockNumber e \<le> ix_blockNumber (indexes s' ! 0)"
    using l by auto
  moreover from C3_size_and_block_bound[OF c o3(1) e3] m o3(2) l3
  have "ix_blockNumber (indexes s3 ! 0) = Max (ev_blockNumber ` set (table_rows s3 0))"
    by auto
  ultimately show ?thesis using c o e l t m i o3 e3 b3 by (simp add: list_all_iff)
qed






section \<open>Properties of the reorg detector\<close>

lemma set_insert_by: "set (insert_by cmp x xs) = insert x (set xs)"
  by (induction xs) auto

lemma set_sort_by: "set (sort_by cmp xs) = set xs"
  by (induction xs) (simp_all add: sort_by_def set_insert_by)

lemma model_create_tables:
  assumes "model_create n e s = (r, s')" and "db_tables s name = Some rows"
  shows "\<exists>added. db_tables s' name = Some (rows @ added) \<and> set added \<subseteq> {e}
           \<and> (\<forall>x \<in> set added. ev_id x \<notin> ev_id ` set rows)"
proof (cases "db_tables s n")
  case None
  then have "s' = s" using assms(1) by (simp add: model_create_def)
  then show ?thesis using assms(2) by (intro exI[of _ "[]"]) simp
next
  case (Some rows0)
  show ?thesis
  proof (cases "violates_unique e rows0")
    case True
    then have "s' = s" using assms(1) Some by (simp add: model_create_def)
    then show ?thesis using assms(2) by (intro exI[of _ "[]"]) simp
  next
    case False
    then have s': "db_tables s' = (db_tables s)(n \<mapsto> rows0 @ [e])"
      using assms(1) Some by (auto simp: model_create_def)
    show ?thesis
    proof (cases "name = n")
      case True
      then have "rows0 = rows" using Some assms(2) by simp
      moreover have "ev_id e \<notin> ev_id ` set rows0"
        using False by (auto simp: violates_unique_def)
      ultimately show ?thesis using s' True by (intro exI[of _ "[e]"]) simp
    next
      case False
      then show ?thesis using s' assms(2) by (intro exI[of _ "[]"]) simp
    qed
  qed
qed

lemma model_create_no_table:
  assumes "model_create n e s = (r, s')" and "db_tables s name = None"
  shows "db_tables s' name = None"
  using assms by (auto simp: model_create_def split: option.splits if_splits)

lemma insert_event_as_model_create:
  "\<exists>n s1. db_tables s1 = db_tables s \<and>
     (insert_event e k s = model_create n e s1 \<or> snd (insert_event e k s) = s1)"
proof (cases "getModel (indexes s ! k) s")
  case (Inl err)
  then have "snd (insert_event e k s) = s" by (simp add: insert_event_def)
  then show ?thesis by blast
next
  case (Inr name)
  let ?index' = "(indexes s ! k)
        \<lparr>ix_blockNumber := max (ix_blockNumber (indexes s ! k)) (ev_blockNumber e),
         ix_size := ix_size (indexes s ! k) + 1\<rparr>"
  let ?s1 = "s\<lparr>indexes := (indexes s)[k := ?index'],
               db_EventIndex := save_index ?index' (db_EventIndex s)\<rparr>"
  have "insert_event e k s = model_create name e ?s1"
    using Inr by (simp add: insert_event_def Let_def)
  moreover have "db_tables ?s1 = db_tables s" by simp
  ultimately show ?thesis by blast
qed

lemma create_as_model_create:
  "\<exists>n s1. db_tables s1 = db_tables s \<and>
     (create e s = model_create n e s1 \<or> snd (create e s) = s1)"
proof -
  let ?t = "(if indexes s \<noteq> []
            then (case find_range (ev_blockNumber e) (- 1) (indexes s) 0 of
                    Some k \<Rightarrow> Some k
                  | None \<Rightarrow> if ix_size (last (indexes s)) < maxSizeForSingleTable s
                            then Some (length (indexes s) - 1) else None)
            else None)"
  show ?thesis
  proof (cases ?t)
    case (Some k)
    then have "create e s = insert_event e k s" by (simp add: create_def)
    then show ?thesis using insert_event_as_model_create[of s e k] by simp
  next
    case None
    let ?new = "\<lparr>ix_id = db_nextId s, ix_chainId = ev_chainId e, ix_blockNumber = ev_blockNumber e,
           ix_index = length (indexes s), ix_size = 1\<rparr>"
    let ?s1 = "s\<lparr>db_EventIndex := db_EventIndex s @ [?new], db_nextId := Suc (db_nextId s),
                 indexes := indexes s @ [?new]\<rparr>"
    have c: "create e s = (case getModel ?new ?s1 of Inl err \<Rightarrow> (Inl err, ?s1)
               | Inr name \<Rightarrow> model_create name e ?s1)"
      using None by (simp add: create_def Let_def)
    have t: "db_tables ?s1 = db_tables s" by simp
    show ?thesis
    proof (cases "getModel ?new ?s1")
      case (Inl err)
      then have "snd (create e s) = ?s1" using c by simp
      then show ?thesis using t by blast
    next
      case (Inr name)
      then have "create e s = model_create name e ?s1" using c by simp
      then show ?thesis using t by blast
    qed
  qed
qed

lemma create_tables:
  assumes "create e s = (r, s')" and "db_tables s name = Some rows"
  shows "\<exists>added. db_tables s' name = Some (rows @ added) \<and> set added \<subseteq> {e}
           \<and> (\<forall>x \<in> set added. ev_id x \<notin> ev_id ` set rows)"
proof -
  obtain n s1 where s1: "db_tables s1 = db_tables s"
    "create e s = model_create n e s1 \<or> snd (create e s) = s1"
    using create_as_model_create by blast
  from s1(2) show ?thesis
  proof
    assume "create e s = model_create n e s1"
    then have "model_create n e s1 = (r, s')" using assms(1) by simp
    from model_create_tables[OF this, of name rows] show ?thesis using s1(1) assms(2) by simp
  next
    assume "snd (create e s) = s1"
    then have "db_tables s' = db_tables s" using assms(1) s1(1) by simp
    then show ?thesis using assms(2) by (intro exI[of _ "[]"]) simp
  qed
qed

lemma create_no_table:
  assumes "create e s = (r, s')" and "db_tables s name = None"
  shows "db_tables s' name = None"
proof -
  obtain n s1 where s1: "db_tables s1 = db_tables s"
    "create e s = model_create n e s1 \<or> snd (create e s) = s1"
    using create_as_model_create by blast
  from s1(2) show ?thesis
  proof
    assume "create e s = model_create n e s1"
    then have "model_create n e s1 = (r, s')" using assms(1) by simp
    from model_create_no_table[OF this, of name] show ?thesis using s1(1) assms(2) by simp
  next
    assume "snd (create e s) = s1"
    then show ?thesis using assms s1(1) by simp
  qed
qed

lemma create_all_tables:
  "create_all es s = (r, s') \<Longrightarrow> db_tables s name = Some rows \<Longrightarrow>
   \<exists>added. db_tables s' name = Some (rows @ added) \<and> set added \<subseteq> set es
      \<and> (\<forall>x \<in> set added. ev_id x \<notin> ev_id ` set rows)"
proof (induction es arbitrary: s rows)
  case Nil
  then show ?case by (intro exI[of _ "[]"]) simp
next
  case (Cons e es)
  obtain r1 s1 where c: "create e s = (r1, s1)" by (cases "create e s")
  from create_tables[OF c Cons.prems(2)] obtain a1 where a1:
    "db_tables s1 name = Some (rows @ a1)" "set a1 \<subseteq> {e}"
    "\<forall>x \<in> set a1. ev_id x \<notin> ev_id ` set rows" by blast
  show ?case
  proof (cases r1)
    case (Inl err)
    then have "s' = s1" using Cons.prems(1) c by simp
    then show ?thesis using a1 by (intro exI[of _ a1]) auto
  next
    case (Inr ev)
    then have "create_all es s1 = (r, s')" using Cons.prems(1) c by simp
    from Cons.IH[OF this a1(1)] obtain a2 where a2:
      "db_tables s' name = Some ((rows @ a1) @ a2)" "set a2 \<subseteq> set es"
      "\<forall>x \<in> set a2. ev_id x \<notin> ev_id ` set (rows @ a1)" by blast
    show ?thesis using a1 a2 by (intro exI[of _ "a1 @ a2"]) auto
  qed
qed

lemma create_all_no_table:
  "create_all es s = (r, s') \<Longrightarrow> db_tables s name = None \<Longrightarrow> db_tables s' name = None"
proof (induction es arbitrary: s)
  case Nil then show ?case by simp
next
  case (Cons e es)
  obtain r1 s1 where c: "create e s = (r1, s1)" by (cases "create e s")
  have n: "db_tables s1 name = None" using create_no_table[OF c Cons.prems(2)] .
  show ?case using Cons.prems(1) c n Cons.IH[of s1] by (cases r1) auto
qed

lemma commit_tables:
  assumes "commit needSave [] s = (ok, s')" and "db_tables s name = Some rows"
  shows "\<exists>added. db_tables s' name = Some (rows @ added) \<and> set added \<subseteq> set needSave
      \<and> (\<forall>x \<in> set added. ev_id x \<notin> ev_id ` set rows)"
proof -
  obtain r s1 where c: "create_all needSave s = (r, s1)" by (cases "create_all needSave s")
  show ?thesis
  proof (cases r)
    case None
    then have "s' = s1" using assms(1) c by (simp add: commit_def)
    then show ?thesis using create_all_tables[OF c assms(2)] by simp
  next
    case (Some err)
    then have "db_tables s' = db_tables s" using assms(1) c by (auto simp: commit_def)
    then show ?thesis using assms(2) by (intro exI[of _ "[]"]) simp
  qed
qed

lemma commit_no_table:
  assumes "commit needSave [] s = (ok, s')" and "db_tables s name = None"
  shows "db_tables s' name = None"
proof -
  obtain r s1 where c: "create_all needSave s = (r, s1)" by (cases "create_all needSave s")
  show ?thesis
    using assms c create_all_no_table[OF c assms(2)]
    by (cases r) (auto simp: commit_def)
qed

lemma min_block_snoc:
  "min_block (es @ [e]) =
     Some (case min_block es of None \<Rightarrow> ev_blockNumber e | Some r \<Rightarrow> min r (ev_blockNumber e))"
proof (cases "es = []")
  case True
  then show ?thesis by (simp add: min_block_def)
next
  case False
  then have "Min (insert (ev_blockNumber e) (ev_blockNumber ` set es))
      = min (ev_blockNumber e) (Min (ev_blockNumber ` set es))"
    by (intro Min_insert) simp_all
  then show ?thesis using False by (simp add: min_block_def min.commute)
qed

lemma check_logs_props:
  "check_logs w c ls (ex, ns, r) = Inr (ex', ns', r') \<Longrightarrow> r = min_block ns \<Longrightarrow>
   r' = min_block ns' \<and> (\<forall>e \<in> set ns'. e \<in> set ns \<or> (\<exists>log \<in> set ls. origin w c e log))"
proof (induction ls arbitrary: ex ns r)
  case Nil
  then show ?case by auto
next
  case (Cons log rest)
  obtain i where i: "calcEventId (sha256 w) c (log_address log) (log_blockHash log)
             (log_transactionHash log) (log_logIndex log) = Inr i"
    using Cons.prems(1) by (auto split: sum.splits)
  show ?case
  proof (cases "ex i \<noteq> None")
    case True
    then have "check_logs w c rest (ex(i := None), ns, r) = Inr (ex', ns', r')"
      using Cons.prems(1) i by simp
    from Cons.IH[OF this Cons.prems(2)] show ?thesis by auto
  next
    case False
    note notin = this
    show ?thesis
    proof (cases "parseLog w log")
      case None
      then have "check_logs w c rest (ex, ns, r) = Inr (ex', ns', r')"
        using Cons.prems(1) i notin by simp
      from Cons.IH[OF this Cons.prems(2)] show ?thesis by auto
    next
      case (Some parsed)
      obtain name args where p: "parseLog w log = Some (name, args)"
        using Some by (cases parsed) simp
      show ?thesis
      proof (cases "getBlockTimestamp w (log_blockNumber log)")
        case None
        then have "check_logs w c rest (ex, ns, r) = Inr (ex', ns', r')"
          using Cons.prems(1) i notin p by simp
        from Cons.IH[OF this Cons.prems(2)] show ?thesis by auto
      next
        case (Some ts)
        let ?e = "supplement c i log name args ts"
        let ?r = "Some (case r of None \<Rightarrow> log_blockNumber log
                               | Some x \<Rightarrow> min x (log_blockNumber log))"
        have step: "check_logs w c rest (ex, ns @ [?e], ?r) = Inr (ex', ns', r')"
          using Cons.prems(1) i notin p Some by simp
        have "?r = min_block (ns @ [?e])"
          using Cons.prems(2) by (cases "min_block ns") (simp_all add: min_block_snoc supplement_def)
        from Cons.IH[OF step this]
        have r': "r' = min_block ns'"
          and o: "\<forall>e \<in> set ns'. e \<in> set (ns @ [?e]) \<or> (\<exists>l \<in> set rest. origin w c e l)"
          by simp_all
        have "origin w c ?e log" using i p Some by (simp add: origin_def)
        then show ?thesis using r' o by auto
      qed
    qed
  qed
qed

lemma page_loop_no_limit:
  "page_loop rows c 0 respond off events = Some (if events \<noteq> [] then [events] else [])"
  by (subst page_loop.simps) simp

lemma findAll_loop_no_limit:
  "fo_limit c = None \<Longrightarrow> findAll_loop s c from to respond previous ixs \<noteq> None"
proof (induction ixs arbitrary: previous)
  case Nil
  then show ?case by simp
next
  case (Cons index rest)
  obtain r where r: "findAll_loop s c from to respond (ix_blockNumber index) rest = Some r"
    using Cons.IH[OF Cons.prems] by blast
  show ?case
    using r Cons.prems
    by (cases r) (simp add: page_loop_no_limit split: sum.splits option.splits)
qed

lemma checkEvents_loop_props:
  "checkEvents_loop w s from to acc \<noteq> None \<and>
   (\<forall>acc'. checkEvents_loop w s from to acc = Some (Inr acc') \<longrightarrow>
      snd (snd acc) = min_block (fst (snd acc)) \<longrightarrow>
      snd (snd acc') = min_block (fst (snd acc')) \<and>
      (\<forall>e \<in> set (fst (snd acc')). e \<in> set (fst (snd acc)) \<or>
         (\<exists>a b. from \<le> a \<and> b \<le> to \<and> (\<exists>log \<in> set (fetchLogs w a b). origin w (chainId s) e log))))"
proof (induction "nat (to - from)" arbitrary: "from" acc rule: less_induct)
  case less
  show ?case
  proof (cases "from \<le> to")
    case False
    then show ?thesis by (subst (1 2) checkEvents_loop.simps) simp
  next
    case True
    let ?to' = "min (from + 1000) to"
    obtain existed needSave r where acc: "acc = (existed, needSave, r)" by (cases acc) auto
    have "findAll s (window_condition (chainId s) from ?to') None None (\<lambda>events. None) \<noteq> None"
      unfolding findAll_def by (rule findAll_loop_no_limit) (simp add: window_condition_def)
    then obtain batches err where f:
      "findAll s (window_condition (chainId s) from ?to') None None (\<lambda>events. None)
         = Some (batches, err)" by auto
    show ?thesis
    proof (cases err)
      case (Some e)
      then show ?thesis using True f by (subst (1 2) checkEvents_loop.simps) (simp add: Let_def)
    next
      case None
      let ?logs = "sort_by (\<lambda>a b. compareLog (log_position a) (log_position b))
                          (fetchLogs w from ?to')"
      let ?ex = "fold (\<lambda>event m. m(ev_id event \<mapsto> event)) (concat batches) existed"
      show ?thesis
      proof (cases "check_logs w (chainId s) ?logs (?ex, needSave, r)")
        case (Inl e)
        then show ?thesis using True f None acc
          by (subst (1 2) checkEvents_loop.simps) (simp add: Let_def)
      next
        case (Inr acc1)
        obtain ex1 ns1 r1 where acc1: "acc1 = (ex1, ns1, r1)" by (cases acc1) auto
        have unfold: "checkEvents_loop w s from to acc =
            (if ?to' = to then Some (Inr acc1) else checkEvents_loop w s ?to' to acc1)"
          using True f None acc Inr by (subst checkEvents_loop.simps) (simp add: Let_def)
        have p1: "r = min_block needSave \<Longrightarrow> r1 = min_block ns1 \<and>
            (\<forall>e \<in> set ns1. e \<in> set needSave \<or> (\<exists>log \<in> set (fetchLogs w from ?to'). origin w (chainId s) e log))"
          using check_logs_props[of w "chainId s" ?logs ?ex needSave r ex1 ns1 r1] Inr acc1
          by (simp add: set_sort_by)
        show ?thesis
        proof (cases "?to' = to")
          case True
          then show ?thesis unfolding unfold using p1 acc acc1 \<open>from \<le> to\<close> by auto
        next
          case False
          then have "nat (to - ?to') < nat (to - from)" using \<open>from \<le> to\<close> by auto
          note IH = less[OF this, of acc1]
          have u2: "checkEvents_loop w s from to acc = checkEvents_loop w s ?to' to acc1"
            using unfold False by (simp only: if_False)
          have ret: "checkEvents_loop w s from to acc \<noteq> None" unfolding u2 using IH by blast
          have rest: "snd (snd acc') = min_block (fst (snd acc')) \<and>
            (\<forall>e \<in> set (fst (snd acc')). e \<in> set (fst (snd acc)) \<or>
              (\<exists>a b. from \<le> a \<and> b \<le> to \<and> (\<exists>log \<in> set (fetchLogs w a b). origin w (chainId s) e log)))"
            if h: "checkEvents_loop w s from to acc = Some (Inr acc')"
              "snd (snd acc) = min_block (fst (snd acc))" for acc'
          proof -
            have "checkEvents_loop w s from to acc = checkEvents_loop w s ?to' to acc1"
              using unfold False by (simp only: if_False)
            then have c: "checkEvents_loop w s ?to' to acc1 = Some (Inr acc')"
              using h(1) by simp
            have m: "r = min_block needSave" using h(2) acc by simp
            have m1: "snd (snd acc1) = min_block (fst (snd acc1))"
              using p1[OF m] acc1 by simp
            note IH2 = IH[THEN conjunct2, rule_format, OF c m1]
            have a: "snd (snd acc') = min_block (fst (snd acc'))"
              and b: "\<forall>e \<in> set (fst (snd acc')). e \<in> set ns1 \<or>
                (\<exists>a b. ?to' \<le> a \<and> b \<le> to \<and> (\<exists>log \<in> set (fetchLogs w a b). origin w (chainId s) e log))"
              using IH2 acc1 by simp_all
            have "e \<in> set (fst (snd acc)) \<or>
                (\<exists>a b. from \<le> a \<and> b \<le> to \<and> (\<exists>log \<in> set (fetchLogs w a b). origin w (chainId s) e log))"
              if e: "e \<in> set (fst (snd acc'))" for e
            proof -
              from b e consider "e \<in> set ns1"
                | "\<exists>a b. ?to' \<le> a \<and> b \<le> to \<and> (\<exists>log \<in> set (fetchLogs w a b). origin w (chainId s) e log)"
                by blast
              then show ?thesis
              proof cases
                case 1
                then have "e \<in> set needSave \<or> (\<exists>log \<in> set (fetchLogs w from ?to'). origin w (chainId s) e log)"
                  using p1[OF m] by blast
                then show ?thesis
                proof
                  assume "e \<in> set needSave" then show ?thesis using acc by simp
                next
                  assume "\<exists>log \<in> set (fetchLogs w from ?to'). origin w (chainId s) e log"
                  then show ?thesis by (intro disjI2 exI[of _ "from"] exI[of _ ?to']) simp
                qed
              next
                case 2
                then obtain a b where "?to' \<le> a" "b \<le> to"
                  "\<exists>log \<in> set (fetchLogs w a b). origin w (chainId s) e log" by blast
                moreover have "from \<le> ?to'" using \<open>from \<le> to\<close> by simp
                ultimately show ?thesis by (intro disjI2 exI[of _ a] exI[of _ b]) simp
              qed
            qed
            then show ?thesis using a by blast
          qed
          show ?thesis using ret rest by blast
        qed
      qed
    qed
  qed
qed

lemma lower_examples:
  "formatHexString ''0xA'' = ''a''" "formatHexString ''0xB5'' = ''b5''"
  "formatHexString ''0xC5'' = ''c5''" "formatHexString ''0xB7'' = ''b7''"
  "formatHexString ''0xC7'' = ''c7''"
  by (simp_all add: formatHexString_def toLowerCase_def lower_char_def)

lemma id_examples:
  "calcEventId (\<lambda>str. str) (Suc 0) ''0xA'' ''0xB5'' (Some ''0xC5'') 0 = Inr ''1,a,b5,c5,0''"
  "calcEventId (\<lambda>str. str) (Suc 0) ''0xA'' ''0xB7'' (Some ''0xC7'') 1 = Inr ''1,a,b7,c7,1''"
  by (simp_all add: calcEventId_def calcId_def lower_examples numToString_def digits.simps
      digit_char_def)

lemma checkEvents_returns: "checkEvents w s from to \<noteq> None"
  using checkEvents_loop_props[of w s "from" to "(Map.empty, [], None)"]
  by (auto simp: checkEvents_def split: option.splits sum.splits)

text \<open>
  C9. For every window \<open>[from, to]\<close>: a check that returns asks for no deletion; the
  commit of its result leaves every stored row in place (each sub-table only grows, by
  rows of \<open>needSave\<close> whose ids were not in it) and creates no table; every event of
  \<open>needSave\<close> is the supplement of a log fetched for a window inside \<open>[from, to]\<close>;
  and \<open>reorgedBlockNumber\<close> is the smallest block number in \<open>needSave\<close>, absent when
  \<open>needSave\<close> is empty, so stored events that were not fetched again do not enter it.
\<close>

theorem C9_check_never_deletes:
  assumes "checkEvents w s from to = Some (Inr (needSave, needDestroy, reorgedBlockNumber))"
    and "commit needSave needDestroy s = (ok, s')"
  shows "needDestroy = []
       \<and> (\<forall>name rows. db_tables s name = Some rows \<longrightarrow>
            (\<exists>added. db_tables s' name = Some (rows @ added) \<and> set added \<subseteq> set needSave
               \<and> (\<forall>x \<in> set added. ev_id x \<notin> ev_id ` set rows)))
       \<and> (\<forall>name. db_tables s name = None \<longrightarrow> db_tables s' name = None)
       \<and> (\<forall>e \<in> set needSave. \<exists>a b. from \<le> a \<and> b \<le> to \<and>
            (\<exists>log \<in> set (fetchLogs w a b). origin w (chainId s) e log))
       \<and> reorgedBlockNumber = min_block needSave"
proof -
  obtain existed where l: "checkEvents_loop w s from to (Map.empty, [], None)
      = Some (Inr (existed, needSave, reorgedBlockNumber))" and d: "needDestroy = []"
    using assms(1) by (auto simp: checkEvents_def split: option.splits sum.splits)
  have "snd (snd (Map.empty :: string \<rightharpoonup> EventStructure, [] :: EventStructure list, None :: int option))
      = min_block (fst (snd (Map.empty :: string \<rightharpoonup> EventStructure, [] :: EventStructure list, None :: int option)))"
    by (simp add: min_block_def)
  from checkEvents_loop_props[of w s "from" to "(Map.empty, [], None)", THEN conjunct2,
      rule_format, OF l this]
  have m: "reorgedBlockNumber = min_block needSave"
    and o: "\<forall>e \<in> set needSave. \<exists>a b. from \<le> a \<and> b \<le> to \<and>
            (\<exists>log \<in> set (fetchLogs w a b). origin w (chainId s) e log)"
    by simp_all
  have c: "commit needSave [] s = (ok, s')" using assms(2) d by simp
  have t: "\<forall>name rows. db_tables s name = Some rows \<longrightarrow>
            (\<exists>added. db_tables s' name = Some (rows @ added) \<and> set added \<subseteq> set needSave
               \<and> (\<forall>x \<in> set added. ev_id x \<notin> ev_id ` set rows))"
    using commit_tables[OF c] by blast
  have n: "\<forall>name. db_tables s name = None \<longrightarrow> db_tables s' name = None"
    using commit_no_table[OF c] by blast
  show ?thesis using d t n o m by blast
qed

lemma store_A_eq:
  "store_A = \<lparr>chainId = 1, maxSizeForSingleTable = 2, initializing = True,
      models = map (concatModelName 1) [0..<30],
      indexes = [\<lparr>ix_id = 1, ix_chainId = 1, ix_blockNumber = 5, ix_index = 0, ix_size = 1\<rparr>],
      db_EventIndex = [\<lparr>ix_id = 1, ix_chainId = 1, ix_blockNumber = 5, ix_index = 0, ix_size = 1\<rparr>],
      db_nextId = 2,
      db_tables = (\<lambda>name. if name \<in> concatModelName 1 ` {0..<30} then Some [] else None)
                    (concatModelName 1 0 \<mapsto> [evA])\<rparr>"
  unfolding store_A_def store_new_def init_fresh_empty
  by (simp add: create_def getModel_def model_create_def violates_unique_def Let_def
      evA_def supplement_def logA_def)

lemma example_check:
  "checkEvents world0 store_A 0 10 = Some (Inr ([evB], [], Some 7))"
  unfolding store_A_eq
  by (simp add: checkEvents_def checkEvents_loop.simps findAll_def findAll_from_def
      findAll_to_def window_condition_def selected_def getModel_def page_loop_no_limit
      model_findAll_def matches_def world0_def sort_by_def compareLog_def log_position_def
      logA_def logB_def id_examples evA_def evB_def supplement_def lower_examples Let_def)

lemma example_commit:
  "fst (commit [evB] [] store_A) = True
   \<and> db_tables store_A (concatModelName 1 0) = Some [evA]
   \<and> db_tables (snd (commit [evB] [] store_A)) (concatModelName 1 0) = Some [evA, evB]"
  unfolding store_A_eq
  by (simp add: commit_def create_def insert_event_def getModel_def model_create_def
      violates_unique_def save_index_def Let_def evA_def evB_def supplement_def logA_def
      logB_def)

theorem C9_check_never_deletes_witness:
  "checkEvents world0 store_A 0 10 = Some (Inr ([evB], [], Some 7))
   \<and> fst (commit [evB] [] store_A) = True
   \<and> db_tables store_A (concatModelName 1 0) = Some [evA]
   \<and> db_tables (snd (commit [evB] [] store_A)) (concatModelName 1 0) = Some [evA, evB]
   \<and> origin world0 1 evB logB
   \<and> min_block [evB] = Some 7"
proof -
  have c: "commit [evB] [] store_A = (True, snd (commit [evB] [] store_A))"
    using example_commit by (metis prod.collapse)
  have o: "origin world0 1 evB logB"
    by (simp add: origin_def world0_def logB_def id_examples evB_def)
  from C9_check_never_deletes[OF example_check c]
  have "Some 7 = min_block [evB]" by blast
  then show ?thesis using example_check example_commit o by simp
qed

lemma calcEventId_undefined:
  "calcEventId h c a b None l = Inl (TypeError ''Cannot read properties of undefined'')"
  by (simp add: calcEventId_def calcId_def)

lemma processLogs_fromDBEvent:
  assumes "events \<noteq> []"
  shows "processLogs w st (map (\<lambda>e. fst (fromDBEvent e)) events)
           (Some (map (\<lambda>e. snd (fromDBEvent e)) events)) = (False, st)"
proof -
  obtain e es where e: "events = e # es" using assms by (cases events) auto
  have u: "[0 ..< length (e # es)] = 0 # [Suc 0 ..< Suc (length es)]"
    by (subst upt_rec) simp
  show ?thesis
    unfolding e processLogs_def length_map u
    by (simp add: fromDBEvent_def calcEventId_undefined)
qed

lemma page_loop_short:
  "length events \<noteq> limit \<Longrightarrow>
   page_loop rows c limit respond off events = Some (if events \<noteq> [] then [events] else [])"
  by (subst page_loop.simps) simp

lemma storage_AB_events:
  "st_events storage_AB = \<lparr>chainId = 1, maxSizeForSingleTable = 2, initializing = True,
      models = map (concatModelName 1) [0..<30],
      indexes = [\<lparr>ix_id = 1, ix_chainId = 1, ix_blockNumber = 7, ix_index = 0, ix_size = 2\<rparr>],
      db_EventIndex = [\<lparr>ix_id = 1, ix_chainId = 1, ix_blockNumber = 7, ix_index = 0, ix_size = 2\<rparr>],
      db_nextId = 2,
      db_tables = (\<lambda>name. if name \<in> concatModelName 1 ` {0..<30} then Some [] else None)
                    (concatModelName 1 0 \<mapsto> [evA, evB])\<rparr>"
  unfolding storage_AB_def store_A_eq
  by (simp add: commit_def create_def insert_event_def getModel_def model_create_def
      violates_unique_def save_index_def Let_def evA_def evB_def supplement_def logA_def
      logB_def)

lemma storage_AB_batches:
  "findAllOrderByBTLASC (st_events storage_AB) (ToBlock 6) None (\<lambda>e. True) 1000
     = Some ([[evB]], None)"
  unfolding storage_AB_events
  by (simp add: findAllOrderByBTLASC_def events_latestBlockNumber_def findAll_def
      findAll_from_def findAll_to_def ordered_condition_def selected_def getModel_def
      page_loop_short model_findAll_def matches_def evA_def evB_def supplement_def
      logA_def logB_def Let_def)

text \<open>
  C6 (observed behaviour). Block 7 was reorganised: the store holds the event of log A
  (block 5) and the supplemented event of log B (block 7). \<open>Storage.reorg(7)\<close> reads the
  one batch holding the event of block 7, but the log that \<open>fromDBEvent\<close> rebuilds has
  no \<open>transactionHash\<close>, so computing its id throws, \<open>processLogs\<close> rolls back and
  answers \<open>false\<close>, and no \<open>newParsedEvent\<close> is emitted: the state is unchanged.
\<close>

theorem C6_reorg_emits_nothing:
  "findAllOrderByBTLASC (st_events storage_AB) (ToBlock (7 - 1)) None (\<lambda>e. True) 1000
     = Some ([[evB]], None)
   \<and> ev_blockNumber evB = 7
   \<and> processLogs storage_world storage_AB [fst (fromDBEvent evB)] (Some [snd (fromDBEvent evB)])
       = (False, storage_AB)
   \<and> reorg storage_world storage_AB 7 = Some (None, storage_AB)
   \<and> st_parsedEvents storage_AB = []"
proof -
  have a: "findAllOrderByBTLASC (st_events storage_AB) (ToBlock (7 - 1)) None (\<lambda>e. True) 1000
     = Some ([[evB]], None)"
    using storage_AB_batches by simp
  have b: "processLogs storage_world storage_AB [fst (fromDBEvent evB)]
             (Some [snd (fromDBEvent evB)]) = (False, storage_AB)"
    using processLogs_fromDBEvent[of "[evB]" storage_world storage_AB] by simp
  have c: "reorg storage_world storage_AB 7 = Some (None, storage_AB)"
    unfolding reorg_def a using b by simp
  have d: "ev_blockNumber evB = 7" by (simp add: evB_def supplement_def logB_def)
  have e: "st_parsedEvents storage_AB = []" by (simp add: storage_AB_def)
  show ?thesis using a b c d e by simp
qed

lemma after_ToPos_iff: "after_position (ToPos p) e \<longleftrightarrow> pos_key p < ev_position e"
  by (auto simp: pos_key_def ev_position_def)

lemma upto_ToPos_iff: "upto_position (ToPos p) e \<longleftrightarrow> ev_position e \<le> pos_key p"
  by (auto simp: pos_key_def ev_position_def)

lemma pos_key_position_of: "pos_key (position_of x) = ev_position x"
  by (simp add: pos_key_def position_of_def ev_position_def)

lemma position_block_mono: "ev_position x \<le> ev_position e \<Longrightarrow> ev_blockNumber x \<le> ev_blockNumber e"
  by (auto simp: ev_position_def)

lemma after_position_mono:
  "after_position t x \<Longrightarrow> ev_position x \<le> ev_position e \<Longrightarrow> after_position t e"
proof (cases t)
  case (ToBlock n)
  assume "after_position t x" "ev_position x \<le> ev_position e"
  then show ?thesis using ToBlock position_block_mono[of x e] by simp
next
  case (ToPos p)
  assume "after_position t x" "ev_position x \<le> ev_position e"
  then show ?thesis unfolding ToPos after_ToPos_iff by simp
qed

lemma filter_greater_nth:
  fixes f :: "'a \<Rightarrow> 'b::linorder"
  assumes s: "sorted (map f xs)" and d: "distinct (map f xs)" and i: "i < length xs"
  shows "filter (\<lambda>e. f (xs ! i) < f e) xs = drop (Suc i) xs"
proof -
  have a: "filter (\<lambda>e. f (xs ! i) < f e) (take (Suc i) xs) = []"
  proof -
    have "\<not> f (xs ! i) < f x" if xin: "x \<in> set (take (Suc i) xs)" for x
    proof -
      obtain j where j0: "j < length (take (Suc i) xs)" "take (Suc i) xs ! j = x"
        using xin in_set_conv_nth[of x "take (Suc i) xs"] by blast
      have j: "j < Suc i" "j < length xs" "x = xs ! j"
        using j0 by simp_all
      have "map f xs ! j \<le> map f xs ! i"
        using sorted_nth_mono[OF s, of j i] j i by simp
      then show ?thesis using j i by simp
    qed
    then show ?thesis by (simp add: filter_empty_conv)
  qed
  have b: "filter (\<lambda>e. f (xs ! i) < f e) (drop (Suc i) xs) = drop (Suc i) xs"
  proof -
    have "f (xs ! i) < f x" if xin: "x \<in> set (drop (Suc i) xs)" for x
    proof -
      obtain k where k: "k < length (drop (Suc i) xs)" "drop (Suc i) xs ! k = x"
        using xin in_set_conv_nth[of x "drop (Suc i) xs"] by blast
      define j where "j = Suc i + k"
      have j: "Suc i \<le> j" "j < length xs" "x = xs ! j"
        using k i unfolding j_def by simp_all
      have le: "map f xs ! i \<le> map f xs ! j"
        using sorted_nth_mono[OF s, of i j] j i by simp
      have "map f xs ! i \<noteq> map f xs ! j"
        using nth_eq_iff_index_eq[OF d, of i j] j i by simp
      then show ?thesis using le j i by simp
    qed
    then show ?thesis by (simp add: filter_id_conv)
  qed
  have "filter (\<lambda>e. f (xs ! i) < f e) (take (Suc i) xs @ drop (Suc i) xs) = drop (Suc i) xs"
    unfolding filter_append a b by simp
  then show ?thesis by simp
qed

lemma insort_key_append:
  fixes f :: "'a \<Rightarrow> 'b::linorder"
  shows "(\<forall>y \<in> set B. f x \<le> f y) \<Longrightarrow> insort_key f x (A @ B) = insort_key f x A @ B"
proof (induction A)
  case Nil
  then show ?case by (cases B) auto
next
  case (Cons a A)
  then show ?case by simp
qed

lemma sort_key_append:
  fixes f :: "'a \<Rightarrow> 'b::linorder"
  shows "(\<forall>x \<in> set xs. \<forall>y \<in> set ys. f x \<le> f y)
     \<Longrightarrow> sort_key f (xs @ ys) = sort_key f xs @ sort_key f ys"
proof (induction xs)
  case Nil
  then show ?case by simp
next
  case (Cons x xs)
  have "sort_key f ((x # xs) @ ys) = insort_key f x (sort_key f (xs @ ys))"
    by simp
  also have "\<dots> = insort_key f x (sort_key f xs @ sort_key f ys)"
    using Cons by simp
  also have "\<dots> = insort_key f x (sort_key f xs) @ sort_key f ys"
    using Cons.prems by (intro insort_key_append) simp
  finally show ?case by simp
qed

lemma sort_key_concat:
  fixes f :: "'a \<Rightarrow> 'b::linorder"
  shows "sorted_wrt (\<lambda>xs ys. \<forall>x \<in> set xs. \<forall>y \<in> set ys. f x \<le> f y) xss
     \<Longrightarrow> sort_key f (concat xss) = concat (map (sort_key f) xss)"
proof (induction xss)
  case Nil
  then show ?case by simp
next
  case (Cons xs xss)
  have "\<forall>x \<in> set xs. \<forall>y \<in> set (concat xss). f x \<le> f y"
    using Cons.prems by auto
  then show ?case using Cons by (simp add: sort_key_append)
qed

lemma sorted_split:
  fixes f :: "'a \<Rightarrow> 'b::linorder"
  shows "sorted (map f xs) \<Longrightarrow> filter (\<lambda>e. f e \<le> b) xs @ filter (\<lambda>e. b < f e) xs = xs"
proof (induction xs)
  case Nil
  then show ?case by simp
next
  case (Cons x xs)
  show ?case
  proof (cases "f x \<le> b")
    case True
    then show ?thesis using Cons by simp
  next
    case False
    have "\<forall>y \<in> set xs. b < f y" using False Cons.prems by auto
    then have "filter (\<lambda>e. f e \<le> b) xs = []" "filter (\<lambda>e. b < f e) xs = xs"
      by (auto simp: filter_empty_conv filter_id_conv)
    then show ?thesis using False by simp
  qed
qed

lemma distinct_key_filter:
  assumes "distinct (map (\<lambda>e. (g e, f e)) xs)"
  shows "distinct (map f (filter (\<lambda>e. g e = c \<and> R e) xs))"
  using assms
proof (induction xs)
  case Nil
  then show ?case by simp
next
  case (Cons x xs)
  then show ?case by (auto simp: image_iff)
qed

lemma distinct_map_sort_key:
  fixes f :: "'a \<Rightarrow> 'b::linorder"
  shows "distinct (map f (sort_key f xs)) \<longleftrightarrow> distinct (map f xs)"
  by (simp add: distinct_map)

lemma ordered_query:
  "model_findAll rows
     ((ordered_condition s a to additional l0 o0)\<lparr>fo_limit := Some L, fo_offset := Some 0\<rparr>)
   = take L (filter (after_position a)
               (sort_key ev_position (filter (fixed_condition s to additional) rows)))"
proof -
  have m: "matches ((ordered_condition s a to additional l0 o0)
                      \<lparr>fo_limit := Some L, fo_offset := Some 0\<rparr>)
           = (\<lambda>e. fixed_condition s to additional e \<and> after_position a e)"
    by (rule ext) (auto simp: matches_def ordered_condition_def fixed_condition_def)
  show ?thesis
    unfolding model_findAll_def m
    by (simp add: ordered_condition_def filter_sort)
qed

lemma page_loop_ordered:
  assumes L: "0 < L"
    and d: "distinct (map ev_position T)"
    and s: "sorted (map ev_position T)"
    and T: "T = sort_key ev_position (filter (fixed_condition s to additional) rows)"
  shows "X = filter (after_position a) T \<Longrightarrow>
     \<exists>bs. page_loop rows c L
            (\<lambda>batch. Some (ordered_condition s (ToPos (position_of (last batch))) to
                              additional None (Some 0)))
            off (take L X) = Some bs
          \<and> concat bs = X \<and> [] \<notin> set bs"
proof (induction "length X" arbitrary: X a off rule: less_induct)
  case less
  let ?respond = "\<lambda>batch. Some (ordered_condition s (ToPos (position_of (last batch))) to
                              additional None (Some 0))"
  show ?case
  proof (cases "L \<le> length X")
    case False
    then have t: "take L X = X" "length X \<noteq> L" by simp_all
    show ?thesis
      unfolding t by (subst page_loop.simps) (simp add: t)
  next
    case True
    have len: "length (take L X) = L" using True by simp
    have ne: "take L X \<noteq> []" using True L by auto
    define x where "x = last (take L X)"
    have xn: "x = X ! (L - 1)"
      unfolding x_def using True L ne by (simp add: last_conv_nth)
    have xin: "x \<in> set X" using xn True L by simp
    have ax: "after_position a x" using xin less.prems by simp
    have sX: "sorted (map ev_position X)"
      unfolding less.prems using s by (simp add: sorted_filter)
    have dX: "distinct (map ev_position X)"
      unfolding less.prems using d by (simp add: distinct_map_filter)
    have eq: "after_position (ToPos (position_of x)) e \<longleftrightarrow> ev_position x < ev_position e"
      for e by (simp only: after_ToPos_iff pos_key_position_of)
    have mono: "ev_position x < ev_position e \<Longrightarrow> after_position a e" for e
      using after_position_mono[OF ax, of e] by simp
    have "filter (after_position (ToPos (position_of x))) T
          = filter (\<lambda>e. ev_position x < ev_position e) (filter (after_position a) T)"
      unfolding filter_filter eq
      by (rule filter_cong) (use mono in blast)+
    also have "\<dots> = filter (\<lambda>e. ev_position (X ! (L - 1)) < ev_position e) X"
      using less.prems xn by simp
    also have "\<dots> = drop (Suc (L - 1)) X"
      using filter_greater_nth[OF sX dX, of "L - 1"] True L by simp
    finally have nxt: "filter (after_position (ToPos (position_of x))) T = drop L X"
      using L by simp
    have q: "model_findAll rows
               ((ordered_condition s (ToPos (position_of x)) to additional None (Some 0))
                  \<lparr>fo_limit := Some L, fo_offset := Some 0\<rparr>) = take L (drop L X)"
      using ordered_query[where rows = rows and s = s and a = "ToPos (position_of x)" and to = to
          and additional = additional and ?l0.0 = None and ?o0.0 = "Some 0" and L = L]
      unfolding T[symmetric] nxt by simp
    have "length (drop L X) < length X" using True L by simp
    from less.hyps[OF this nxt[symmetric], of "off + L"]
    obtain bs where bs: "page_loop rows c L ?respond (off + L) (take L (drop L X)) = Some bs"
      "concat bs = drop L X" "[] \<notin> set bs" by blast
    have o: "fo_offset (ordered_condition s (ToPos (position_of x)) to additional None (Some 0))
             = Some 0"
      by (simp add: ordered_condition_def)
    have "page_loop rows c L ?respond off (take L X) = Some (take L X # bs)"
    proof -
      have mn: "min (length X) L = L" using True by simp
      have xne: "X \<noteq> []" using True L by auto
      show ?thesis
        by (subst page_loop.simps) (simp add: mn xne L x_def[symmetric] o q bs Let_def)
    qed
    then show ?thesis using bs ne by simp
  qed
qed

lemma after_position_block: "after_position t e \<Longrightarrow> target_blockNumber t \<le> ev_blockNumber e"
  by (cases t) auto

lemma upto_position_block: "upto_position t e \<Longrightarrow> ev_blockNumber e \<le> target_blockNumber t"
  by (cases t) auto

lemma index_max_le_latest:
  assumes "sorted (map ix_blockNumber (indexes s))" "k < length (indexes s)"
  shows "ix_blockNumber (indexes s ! k) \<le> events_latestBlockNumber s"
proof -
  have ne: "indexes s \<noteq> []" using assms by auto
  have "map ix_blockNumber (indexes s) ! k
        \<le> map ix_blockNumber (indexes s) ! (length (indexes s) - 1)"
    using assms by (intro sorted_nth_mono) auto
  then show ?thesis
    using assms ne by (simp add: events_latestBlockNumber_def last_conv_nth)
qed

lemma not_selected_empty:
  assumes c: "consistent s" and k: "k < length (indexes s)"
    and tb: "tobn = (case to of None \<Rightarrow> events_latestBlockNumber s
                     | Some t \<Rightarrow> target_blockNumber t)"
    and n: "\<not> selected (target_blockNumber from) (Some tobn) (previous_max s k)
                (ix_blockNumber (indexes s ! k))"
  shows "filter (after_position from)
           (sort_key ev_position (filter (fixed_condition s to additional) (table_rows s k))) = []"
proof -
  have r: "ranges_ok s" using c by (simp add: consistent_def)
  have False
    if e: "e \<in> set (table_rows s k)" and a: "after_position from e"
      and f: "fixed_condition s to additional e" for e
  proof -
    have b: "previous_max s k < ev_blockNumber e"
      "ev_blockNumber e \<le> ix_blockNumber (indexes s ! k)"
      using r k e unfolding ranges_ok_def by blast+
    have lo: "target_blockNumber from \<le> ev_blockNumber e"
      using a by (rule after_position_block)
    have hi: "ev_blockNumber e \<le> tobn"
    proof (cases to)
      case None
      have "ix_blockNumber (indexes s ! k) \<le> events_latestBlockNumber s"
        using r k unfolding ranges_ok_def by (intro index_max_le_latest) auto
      then show ?thesis using b tb None by simp
    next
      case (Some t)
      then show ?thesis using f tb upto_position_block[of t e]
        by (simp add: fixed_condition_def)
    qed
    show False using n b lo hi unfolding selected_def by auto
  qed
  then show ?thesis by (auto simp: filter_empty_conv)
qed

lemma findAll_loop_ordered:
  assumes c: "consistent s" and L: "0 < L"
    and tb: "tobn = (case to of None \<Rightarrow> events_latestBlockNumber s
                     | Some t \<Rightarrow> target_blockNumber t)"
  shows "k \<le> length (indexes s) \<Longrightarrow>
     \<exists>bs. findAll_loop s (ordered_condition s from to additional (Some L) None)
            (target_blockNumber from) (Some tobn)
            (\<lambda>batch. Some (ordered_condition s (ToPos (position_of (last batch))) to
                              additional None (Some 0)))
            (previous_max s k) (drop k (indexes s)) = Some (bs, None)
       \<and> concat bs = concat (map (\<lambda>j. filter (after_position from)
                                   (sort_key ev_position
                                      (filter (fixed_condition s to additional) (table_rows s j))))
                              [k ..< length (indexes s)])
       \<and> [] \<notin> set bs"
proof (induction "length (indexes s) - k" arbitrary: k)
  case 0
  then have "drop k (indexes s) = []" "[k ..< length (indexes s)] = []" by simp_all
  then show ?case by simp
next
  case (Suc m)
  let ?respond = "\<lambda>batch. Some (ordered_condition s (ToPos (position_of (last batch))) to
                              additional None (Some 0))"
  let ?cond = "ordered_condition s from to additional (Some L) None"
  let ?n = "length (indexes s)"
  let ?rows = "table_rows s k"
  let ?T = "sort_key ev_position (filter (fixed_condition s to additional) ?rows)"
  let ?X = "filter (after_position from) ?T"
  have k: "k < ?n" using Suc.hyps(2) by simp
  have dr: "drop k (indexes s) = indexes s ! k # drop (Suc k) (indexes s)"
    using k by (simp add: Cons_nth_drop_Suc)
  have up: "[k ..< ?n] = k # [Suc k ..< ?n]" using k by (simp add: upt_conv_Cons)
  have pm: "previous_max s (Suc k) = ix_blockNumber (indexes s ! k)"
    by (simp add: previous_max_def)
  have "m = ?n - Suc k" using Suc.hyps(2) by simp
  from Suc.hyps(1)[OF this] k
  obtain bs' where bs':
    "findAll_loop s ?cond (target_blockNumber from) (Some tobn) ?respond
        (ix_blockNumber (indexes s ! k)) (drop (Suc k) (indexes s)) = Some (bs', None)"
    "concat bs' = concat (map (\<lambda>j. filter (after_position from)
                                   (sort_key ev_position
                                      (filter (fixed_condition s to additional) (table_rows s j))))
                           [Suc k ..< ?n])"
    "[] \<notin> set bs'"
    unfolding pm by auto
  show ?case
  proof (cases "selected (target_blockNumber from) (Some tobn) (previous_max s k)
                  (ix_blockNumber (indexes s ! k))")
    case False
    have "?X = []" using not_selected_empty[OF c k tb False] .
    then show ?thesis
      unfolding dr up using False bs' by simp
  next
    case True
    have io: "indexed_ok s" and u: "unique_ok s" using c by (simp_all add: consistent_def)
    have ix: "ix_index (indexes s ! k) = k"
      "concatModelName (chainId s) k \<in> set (models s)"
      "db_tables s (concatModelName (chainId s) k) \<noteq> None"
      using io k unfolding indexed_ok_def by blast+
    have gm: "getModel (indexes s ! k) s = Inr (concatModelName (chainId s) k)"
      using ix by (simp add: getModel_def)
    have tbl: "db_tables s (concatModelName (chainId s) k) = Some ?rows"
      using ix(3) by (auto simp: table_rows_def)
    have d0: "distinct (map (\<lambda>e. (ev_chainId e, ev_position e)) ?rows)"
      using u k unfolding unique_ok_def by blast
    have "distinct (map ev_position (filter (fixed_condition s to additional) ?rows))"
      unfolding fixed_condition_def by (rule distinct_key_filter[OF d0])
    then have d: "distinct (map ev_position ?T)"
      by (simp only: distinct_map_sort_key)
    have so: "sorted (map ev_position ?T)" by simp
    have q: "model_findAll ?rows (?cond\<lparr>fo_offset := Some 0\<rparr>) = take L ?X"
    proof -
      have "?cond\<lparr>fo_offset := Some 0\<rparr> = ?cond\<lparr>fo_limit := Some L, fo_offset := Some 0\<rparr>"
        by (simp add: ordered_condition_def)
      then show ?thesis by (simp only: ordered_query)
    qed
    from page_loop_ordered[OF L d so refl refl, where a = "from" and c = ?cond and off = 0]
    obtain bs where bs: "page_loop ?rows ?cond L ?respond 0 (take L ?X) = Some bs"
      "concat bs = ?X" "[] \<notin> set bs" by blast
    have lim: "fo_limit ?cond = Some L" by (simp add: ordered_condition_def)
    have "findAll_loop s ?cond (target_blockNumber from) (Some tobn) ?respond
            (previous_max s k) (indexes s ! k # drop (Suc k) (indexes s))
          = Some (bs @ bs', None)"
      using True by (simp add: gm tbl lim L q bs bs')
    then show ?thesis
      unfolding dr up using bs bs' by simp
  qed
qed

lemma stored_events_tables:
  assumes "indexed_ok s"
  shows "stored_events s = concat (map (table_rows s) [0 ..< length (indexes s)])"
proof -
  have "map (\<lambda>index. table_rows s (ix_index index)) (indexes s)
        = map (table_rows s) [0 ..< length (indexes s)]"
    using assms by (intro nth_equalityI) (auto simp: indexed_ok_def)
  then show ?thesis by (simp add: stored_events_def)
qed

lemma tables_in_order:
  assumes r: "ranges_ok s" and ij: "i < j" "j < length (indexes s)"
    and x: "x \<in> set (table_rows s i)" and y: "y \<in> set (table_rows s j)"
  shows "ev_position x < ev_position y"
proof -
  have i: "i < length (indexes s)" using ij by simp
  have a: "ev_blockNumber x \<le> ix_blockNumber (indexes s ! i)"
    using r i x unfolding ranges_ok_def by blast
  have b: "previous_max s j < ev_blockNumber y"
    using r ij y unfolding ranges_ok_def by blast
  have "map ix_blockNumber (indexes s) ! i \<le> map ix_blockNumber (indexes s) ! (j - 1)"
    using r ij unfolding ranges_ok_def by (intro sorted_nth_mono) auto
  then have "ix_blockNumber (indexes s ! i) \<le> previous_max s j"
    using ij by (simp add: previous_max_def)
  then have "ev_blockNumber x < ev_blockNumber y" using a b by simp
  then show ?thesis by (simp add: ev_position_def)
qed

lemma ordered_events_tables:
  assumes c: "consistent s"
  shows "ordered_events s =
     concat (map (\<lambda>j. sort_key ev_position
                         (filter (\<lambda>e. ev_chainId e = chainId s) (table_rows s j)))
                 [0 ..< length (indexes s)])"
proof -
  have io: "indexed_ok s" and r: "ranges_ok s" using c by (simp_all add: consistent_def)
  let ?xss = "map (\<lambda>j. filter (\<lambda>e. ev_chainId e = chainId s) (table_rows s j))
                [0 ..< length (indexes s)]"
  have f: "filter (\<lambda>e. ev_chainId e = chainId s) (stored_events s) = concat ?xss"
    unfolding stored_events_tables[OF io] by (simp add: filter_concat comp_def)
  have "sorted_wrt (\<lambda>xs ys. \<forall>x \<in> set xs. \<forall>y \<in> set ys. ev_position x \<le> ev_position y) ?xss"
    unfolding sorted_wrt_iff_nth_less
  proof (intro allI impI ballI)
    fix i j x y
    assume ij: "i < j" "j < length ?xss" and x: "x \<in> set (?xss ! i)" and y: "y \<in> set (?xss ! j)"
    have "ev_position x < ev_position y"
      using tables_in_order[OF r, of i j x y] ij x y by simp
    then show "ev_position x \<le> ev_position y" by simp
  qed
  then have "sort_key ev_position (concat ?xss) = concat (map (sort_key ev_position) ?xss)"
    by (rule sort_key_concat)
  then show ?thesis unfolding ordered_events_def f by (simp add: comp_def)
qed

lemma sorted_ordered_events: "sorted (map ev_position (ordered_events s))"
  by (simp add: ordered_events_def)

text \<open>
  On a consistent store \<open>findAllOrderByBTLASC\<close> ends, throws nothing and yields, in
  non-empty batches, the stored events of the chain after \<open>from\<close> and up to \<open>to\<close> that
  satisfy \<open>additional\<close>, in the order of their positions.
\<close>

lemma findAllOrderByBTLASC_ordered:
  assumes c: "consistent s" and L: "0 < L"
    and le: "target_blockNumber from
             \<le> (case to of None \<Rightarrow> events_latestBlockNumber s | Some t \<Rightarrow> target_blockNumber t)"
  shows "\<exists>bs. findAllOrderByBTLASC s from to additional L = Some (bs, None)
       \<and> concat bs = filter (\<lambda>e. after_position from e
                                  \<and> (case to of None \<Rightarrow> True | Some t \<Rightarrow> upto_position t e)
                                  \<and> additional e) (ordered_events s)
       \<and> [] \<notin> set bs"
proof -
  let ?tobn = "case to of None \<Rightarrow> events_latestBlockNumber s | Some t \<Rightarrow> target_blockNumber t"
  let ?P = "\<lambda>e. after_position from e
                 \<and> (case to of None \<Rightarrow> True | Some t \<Rightarrow> upto_position t e) \<and> additional e"
  from findAll_loop_ordered[OF c L refl, of 0 "from" to additional]
  obtain bs where bs:
    "findAll_loop s (ordered_condition s from to additional (Some L) None)
            (target_blockNumber from) (Some ?tobn)
            (\<lambda>batch. Some (ordered_condition s (ToPos (position_of (last batch))) to
                              additional None (Some 0)))
            (- 1) (indexes s) = Some (bs, None)"
    "concat bs = concat (map (\<lambda>j. filter (after_position from)
                                   (sort_key ev_position
                                      (filter (fixed_condition s to additional) (table_rows s j))))
                              [0 ..< length (indexes s)])"
    "[] \<notin> set bs"
    by (auto simp: previous_max_def)
  have a: "findAllOrderByBTLASC s from to additional L = Some (bs, None)"
    using le bs(1)
    by (simp add: findAllOrderByBTLASC_def findAll_def findAll_from_def findAll_to_def
        ordered_condition_def Let_def)
  have t: "filter (after_position from)
             (sort_key ev_position (filter (fixed_condition s to additional) rows))
           = filter ?P (sort_key ev_position (filter (\<lambda>e. ev_chainId e = chainId s) rows))"
    for rows
    unfolding filter_sort filter_filter fixed_condition_def
    by (rule arg_cong[where f = "sort_key ev_position"], rule filter_cong) auto
  have "concat bs = filter ?P (ordered_events s)"
    unfolding bs(2) t ordered_events_tables[OF c] by (simp add: filter_concat comp_def)
  then show ?thesis using a bs(3) by blast
qed

lemma fold_replay_batch:
  "fst (fold (replay_batch sdk) bs state) = fold (apply_event sdk) (concat bs) (fst state)"
  by (induction bs arbitrary: state) (simp_all add: replay_batch_def)

lemma events_upto_split:
  assumes le: "pos_key b \<le> pos_key p"
  shows "filter (upto_position (ToPos b)) (ordered_events s)
         @ filter (\<lambda>e. after_position (ToPos b) e \<and> upto_position (ToPos p) e \<and> True)
             (ordered_events s)
         = filter (upto_position (ToPos p)) (ordered_events s)"
proof -
  let ?E = "filter (upto_position (ToPos p)) (ordered_events s)"
  have s: "sorted (map ev_position ?E)"
    using sorted_ordered_events[of s] by (simp add: sorted_filter)
  have a: "filter (\<lambda>e. ev_position e \<le> pos_key b) ?E
           = filter (upto_position (ToPos b)) (ordered_events s)"
    unfolding filter_filter upto_ToPos_iff
    by (rule filter_cong) (use le in auto)
  have b: "filter (\<lambda>e. pos_key b < ev_position e) ?E
           = filter (\<lambda>e. after_position (ToPos b) e \<and> upto_position (ToPos p) e \<and> True)
               (ordered_events s)"
    unfolding filter_filter upto_ToPos_iff after_ToPos_iff
    by (rule filter_cong) auto
  show ?thesis
    using sorted_split[OF s, of "pos_key b"] unfolding a b .
qed

lemma replay_from_base:
  assumes c: "consistent s" and le: "pos_key b \<le> pos_key p"
  shows "\<exists>q. replay sdk s (snapshot_at sdk s b) b (Some (ToPos p))
              = Some (Inr q, snapshot_at sdk s p)"
proof -
  have bn: "target_blockNumber (ToPos b)
            \<le> (case Some (ToPos p) of None \<Rightarrow> events_latestBlockNumber s
                | Some t \<Rightarrow> target_blockNumber t)"
    using le by (auto simp: pos_key_def)
  from findAllOrderByBTLASC_ordered[OF c _ bn, of 1000 "\<lambda>e. True"]
  obtain bs where bs:
    "findAllOrderByBTLASC s (ToPos b) (Some (ToPos p)) (\<lambda>e. True) 1000 = Some (bs, None)"
    "concat bs = filter (\<lambda>e. after_position (ToPos b) e \<and> upto_position (ToPos p) e \<and> True)
                   (ordered_events s)"
    by auto
  have "fst (fold (replay_batch sdk) bs (snapshot_at sdk s b, b))
        = fold (apply_event sdk) (concat bs) (snapshot_at sdk s b)"
    by (simp add: fold_replay_batch)
  also have "\<dots> = fold (apply_event sdk)
                     (filter (upto_position (ToPos b)) (ordered_events s) @ concat bs)
                     (new_Snapshot sdk)"
    by (simp add: snapshot_at_def)
  also have "\<dots> = snapshot_at sdk s p"
    unfolding bs(2) events_upto_split[OF le] by (simp add: snapshot_at_def)
  finally show ?thesis
    by (simp add: replay_def bs(1) Let_def)
qed

text \<open>
  C7. On a consistent store, \<open>getSnapshot\<close> to the position \<open>p\<close> from a base at \<open>b1\<close> and
  from a base at \<open>b2\<close>, both not after \<open>p\<close> and each the snapshot of its position, returns
  without an error, and both results are the snapshot of \<open>p\<close>: their serializations are
  equal.
\<close>

theorem C7_getSnapshot_base_independent:
  assumes "consistent s" and "pos_key b1 \<le> pos_key p" and "pos_key b2 \<le> pos_key p"
  shows "\<exists>q1 q2 r1 r2.
           getSnapshot sdk table s (ToPos p) (Some (snapshot_at sdk s b1, b1)) = Some (Inr q1, r1)
         \<and> getSnapshot sdk table s (ToPos p) (Some (snapshot_at sdk s b2, b2)) = Some (Inr q2, r2)
         \<and> r1 = snapshot_at sdk s p \<and> r2 = snapshot_at sdk s p
         \<and> serialize sdk r1 = serialize sdk r2"
proof -
  obtain q1 where q1: "replay sdk s (snapshot_at sdk s b1) b1 (Some (ToPos p))
              = Some (Inr q1, snapshot_at sdk s p)"
    using replay_from_base[OF assms(1,2)] by blast
  obtain q2 where q2: "replay sdk s (snapshot_at sdk s b2) b2 (Some (ToPos p))
              = Some (Inr q2, snapshot_at sdk s p)"
    using replay_from_base[OF assms(1,3)] by blast
  show ?thesis using q1 q2 by (simp add: getSnapshot_def)
qed

text \<open>
  The same when the base is looked up: every stored snapshot is the snapshot of its
  position, and no event lies at or before position (0, 0, 0).
\<close>

lemma getSnapshot_lookup:
  assumes c: "consistent s"
    and rows: "\<forall>row \<in> set table. deserialize sdk (sn_snapshot row) (new_Snapshot sdk)
                                  = snapshot_at sdk s (row_position row)"
    and z: "snapshot_at sdk s \<lparr>pos_blockNumber = 0, pos_transactionIndex = 0, pos_logIndex = 0\<rparr>
            = new_Snapshot sdk"
    and p: "(0, 0, 0) \<le> pos_key p"
  shows "\<exists>q. getSnapshot sdk table s (ToPos p) None = Some (Inr q, snapshot_at sdk s p)"
proof (cases "snapshot_findOne (ctx_chainId sdk) (ToPos p) table")
  case None
  have "pos_key \<lparr>pos_blockNumber = 0, pos_transactionIndex = 0, pos_logIndex = 0\<rparr> \<le> pos_key p"
    using p by (simp add: pos_key_def)
  from replay_from_base[OF c this, of sdk] show ?thesis
    using None z by (simp add: getSnapshot_def)
next
  case (Some row)
  let ?f = "filter (\<lambda>r. sn_chainId r = ctx_chainId sdk \<and> row_upto (ToPos p) r) table"
  obtain rs where "rev (sort_key (\<lambda>r. pos_key (row_position r)) ?f) = row # rs"
    using Some unfolding snapshot_findOne_def
    by (cases "rev (sort_key (\<lambda>r. pos_key (row_position r)) ?f)") simp_all
  then have "row \<in> set (rev (sort_key (\<lambda>r. pos_key (row_position r)) ?f))"
    by (simp only: list.set_intros(1))
  then have "row \<in> set ?f" by (simp only: set_rev set_sort)
  then have r: "row \<in> set table" "row_upto (ToPos p) row"
    by (simp_all del: row_upto.simps)
  have "pos_key (row_position row) \<le> pos_key p"
    using r(2) by (auto simp: pos_key_def row_position_def)
  from replay_from_base[OF c this, of sdk] show ?thesis
    using Some rows r(1) by (simp add: getSnapshot_def)
qed

end
